theory Spec2Isabelle
  imports Main "HOL-Library.AList"
begin

section \<open>Field collection and defer grouping of the GraphQL executor\<close>

text \<open>
  A shallow embedding of \<^verbatim>\<open>execution/collectFields\<close> (src/unnamed/part_002):
  the directive evaluator, the fragment condition resolver, the recursive field collector
  and the grouped-field-set builder.

  JavaScript \<^verbatim>\<open>Map\<close> and \<^verbatim>\<open>Set\<close> iterate in insertion order, and the
  builder depends on that order, so a \<^verbatim>\<open>Set\<close> is a list without duplicates and a
  \<^verbatim>\<open>Map\<close> an association list with distinct keys, both in insertion order.
\<close>

subsection \<open>JavaScript containers\<close>

text \<open>\<^verbatim>\<open>Set.prototype.add\<close>: a new element goes last, a present one keeps its place.\<close>

definition set_add :: "'a list \<Rightarrow> 'a \<Rightarrow> 'a list" where
  "set_add s x = (if x \<in> set s then s else s @ [x])"

text \<open>\<^verbatim>\<open>Map.prototype.get\<close>, \<^verbatim>\<open>set\<close> and \<^verbatim>\<open>delete\<close>: \<^verbatim>\<open>set\<close> keeps the
  place of a present key and appends a new one.\<close>

definition map_get :: "('k \<times> 'v) list \<Rightarrow> 'k \<Rightarrow> 'v option" where
  "map_get m k = map_of m k"

definition map_set :: "('k \<times> 'v) list \<Rightarrow> 'k \<Rightarrow> 'v \<Rightarrow> ('k \<times> 'v) list" where
  "map_set m k v = AList.update k v m"

definition map_delete :: "('k \<times> 'v) list \<Rightarrow> 'k \<Rightarrow> ('k \<times> 'v) list" where
  "map_delete m k = AList.delete k m"

subsection \<open>Data model\<close>

text \<open>
  A target is \<^verbatim>\<open>undefined\<close> (the non-deferred sentinel) or a defer usage object
  \<^verbatim>\<open>{ label, ancestors }\<close>. JavaScript compares such objects by reference; the
  \<open>ident\<close> field is the object's identity (its allocation number), so that HOL equality
  on targets is reference equality on the objects.
\<close>

datatype target =
    Undefined_target
  | DeferUsage (ident: nat) (label: "string option") (ancestors: "target list")

text \<open>Coerced directive argument values, as far as this module inspects them.\<close>

datatype jsvalue = JSBool bool | JSString string | JSNumber int | JSNull

datatype valueNode =
    BooleanValue bool
  | StringValue string
  | IntValue int
  | NullValue
  | Variable string

datatype directiveNode =
  DirectiveNode (directiveName: string) (arguments: "(string \<times> valueNode) list")

text \<open>Selections. \<open>loc\<close> tells two occurrences of the same field apart, as the
  distinct AST node objects do.\<close>

datatype selection =
    Field (loc: nat) (fieldAlias: "string option") (fieldName: string)
      (fieldDirectives: "directiveNode list") (fieldSelectionSet: "selection list")
  | InlineFragment (inlineTypeCondition: "string option")
      (inlineDirectives: "directiveNode list") (inlineSelectionSet: "selection list")
  | FragmentSpread (spreadName: string) (spreadDirectives: "directiveNode list")

record fragmentDefinition =
  typeCondition :: "string option"
  selectionSet :: "selection list"

datatype operationType = QUERY | MUTATION | SUBSCRIPTION

record operationDefinition =
  operation :: operationType
  rootSelectionSet :: "selection list"

datatype typeKind = ScalarType | ObjectType | InterfaceType | UnionType | EnumType | InputObjectType

text \<open>A named schema type. A schema holds one object per type name, so equality on name
  and kind is the identity comparison \<^verbatim>\<open>===\<close> of the code.\<close>

datatype gqlType = GqlType (typeName: string) (kindOf: typeKind)

text \<open>The schema, by the two queries this module makes of it: the resolution of a named
  type condition (\<^verbatim>\<open>typeFromAST(schema, node)\<close>, \<open>None\<close> for \<^verbatim>\<open>undefined\<close>) and
  \<^verbatim>\<open>schema.isSubType\<close>.\<close>

record schema =
  typeFromAST :: "string \<Rightarrow> gqlType option"
  isSubType :: "gqlType \<Rightarrow> gqlType \<Rightarrow> bool"

datatype directive = GraphQLSkipDirective | GraphQLIncludeDirective | GraphQLDeferDirective

type_synonym variableValues = "string \<Rightarrow> jsvalue option"

text \<open>\<^verbatim>\<open>getDirectiveValues\<close> (./values.mjs) is an external collaborator: it is a
  parameter of every function that calls it. It reads the node's directives and the
  variables, and returns the coerced argument map or \<^verbatim>\<open>undefined\<close>.\<close>

type_synonym directiveValues =
  "directive \<Rightarrow> directiveNode list \<Rightarrow> variableValues \<Rightarrow> (string \<Rightarrow> jsvalue option) option"

datatype error = InvariantViolation | TypeError

record deferValues =
  deferLabel :: "string option"

subsection \<open>Directive evaluator\<close>

definition getDeferValues ::
  "directiveValues \<Rightarrow> operationDefinition \<Rightarrow> variableValues \<Rightarrow> directiveNode list
    \<Rightarrow> error + deferValues option" where
  "getDeferValues getDirectiveValues oper vars node =
     (case getDirectiveValues GraphQLDeferDirective node vars of
        None \<Rightarrow> Inr None
      | Some defer \<Rightarrow>
          if defer ''if'' = Some (JSBool False) then Inr None
          else if operation oper = SUBSCRIPTION then Inl InvariantViolation
          else Inr (Some \<lparr>deferLabel =
                 (case defer ''label'' of Some (JSString s) \<Rightarrow> Some s | _ \<Rightarrow> None)\<rparr>))"

definition shouldIncludeNode ::
  "directiveValues \<Rightarrow> variableValues \<Rightarrow> directiveNode list \<Rightarrow> bool" where
  "shouldIncludeNode getDirectiveValues vars node =
     (let skip = getDirectiveValues GraphQLSkipDirective node vars in
      if (case skip of Some args \<Rightarrow> args ''if'' = Some (JSBool True) | None \<Rightarrow> False)
      then False
      else
        let incl = getDirectiveValues GraphQLIncludeDirective node vars in
        if (case incl of Some args \<Rightarrow> args ''if'' = Some (JSBool False) | None \<Rightarrow> False)
        then False
        else True)"

subsection \<open>Fragment condition resolver\<close>

text \<open>Modelled from the spec: \<^verbatim>\<open>isAbstractType\<close> (type/definition.mjs is not among the
  sources). An abstract type is an interface or a union; \<^verbatim>\<open>undefined\<close> is neither.\<close>

fun isAbstractType :: "gqlType option \<Rightarrow> bool" where
  "isAbstractType None = False"
| "isAbstractType (Some t) = (kindOf t = InterfaceType \<or> kindOf t = UnionType)"

definition doesFragmentConditionMatch ::
  "schema \<Rightarrow> string option \<Rightarrow> gqlType \<Rightarrow> bool" where
  "doesFragmentConditionMatch sch typeConditionNode type =
     (case typeConditionNode of
        None \<Rightarrow> True
      | Some node \<Rightarrow>
          (let conditionalType = typeFromAST sch node in
           if conditionalType = Some type then True
           else if isAbstractType conditionalType
             then isSubType sch (the conditionalType) type
           else False))"

definition getFieldEntryKey :: "string option \<Rightarrow> string \<Rightarrow> string" where
  "getFieldEntryKey al nm = (case al of Some a \<Rightarrow> a | None \<Rightarrow> nm)"

subsection \<open>Field collector\<close>

text \<open>The immutable part of the collection context.\<close>

record collectContext =
  ctxSchema :: schema
  fragments :: "string \<Rightarrow> fragmentDefinition option"
  ctxVariableValues :: variableValues
  runtimeType :: gqlType
  ctxOperation :: operationDefinition

text \<open>The accumulators that \<^verbatim>\<open>collectFieldsImpl\<close> mutates through the shared
  context object. \<open>nextTargetId\<close> is the allocation counter behind the identity of the
  defer usage objects created by \<^verbatim>\<open>{ ...defer, ancestors }\<close>.\<close>

record accumulators =
  fieldsByTarget :: "(target \<times> (string \<times> selection list) list) list"
  targetsByKey :: "(string \<times> target list) list"
  newDeferUsages :: "target list"
  visitedFragmentNames :: "string list"
  nextTargetId :: nat

text \<open>Modelled from the spec: \<^verbatim>\<open>AccumulatorMap.add\<close> (jsutils/AccumulatorMap.mjs is
  not among the sources): an ordered multimap; adding appends to the list of a present key
  and never replaces it, a new key starts a list of one.\<close>

definition accumulator_add ::
  "('k \<times> 'v list) list \<Rightarrow> 'k \<Rightarrow> 'v \<Rightarrow> ('k \<times> 'v list) list" where
  "accumulator_add m k item =
     (case map_get m k of
        None \<Rightarrow> map_set m k [item]
      | Some grp \<Rightarrow> map_set m k (grp @ [item]))"

text \<open>The \<^verbatim>\<open>Kind.FIELD\<close> case once the node is included.\<close>

definition recordField :: "string \<Rightarrow> target \<Rightarrow> selection \<Rightarrow> accumulators \<Rightarrow> accumulators" where
  "recordField key target sel acc =
     (let keyTargets = (case map_get (targetsByKey acc) key of None \<Rightarrow> [] | Some ts \<Rightarrow> ts);
          targetFields = (case map_get (fieldsByTarget acc) target of None \<Rightarrow> [] | Some fs \<Rightarrow> fs)
      in acc\<lparr>targetsByKey := map_set (targetsByKey acc) key (set_add keyTargets target),
              fieldsByTarget :=
                map_set (fieldsByTarget acc) target (accumulator_add targetFields key sel)\<rparr>)"

text \<open>The creation of a defer usage:
  \<^verbatim>\<open>target = { ...defer, ancestors }; newDeferUsages.push(target)\<close>.\<close>

definition newDeferUsage :: "deferValues \<Rightarrow> target \<Rightarrow> accumulators \<Rightarrow> target \<times> accumulators" where
  "newDeferUsage defer parentTarget acc =
     (let ancs = (if parentTarget = Undefined_target then [parentTarget]
                  else parentTarget # ancestors parentTarget);
          target = DeferUsage (nextTargetId acc) (deferLabel defer) ancs
      in (target, acc\<lparr>newDeferUsages := newDeferUsages acc @ [target],
                       nextTargetId := Suc (nextTargetId acc)\<rparr>))"

text \<open>
  \<^verbatim>\<open>collectFieldsImpl(context, selectionSet, parentTarget, newTarget)\<close>. The loop over
  the selections is the recursion on the list. Following a fragment spread is not
  structural (a deferred spread is followed whatever was visited, so a cyclic fragment
  table never ends): each spread that is followed costs one unit of \<open>fuel\<close>, and
  \<open>None\<close> is the run that does not return within it. \<open>Some (Inl e)\<close> is a throw.
\<close>

fun collectFieldsImpl ::
  "nat \<Rightarrow> directiveValues \<Rightarrow> collectContext \<Rightarrow> selection list \<Rightarrow> target \<Rightarrow> target
     \<Rightarrow> accumulators \<Rightarrow> (error + accumulators) option" where
  "collectFieldsImpl fuel gdv ctx [] parentTarget newTarget acc = Some (Inr acc)"
| "collectFieldsImpl fuel gdv ctx (Field l al nm dirs sub # rest) parentTarget newTarget acc =
     (if \<not> shouldIncludeNode gdv (ctxVariableValues ctx) dirs
      then collectFieldsImpl fuel gdv ctx rest parentTarget newTarget acc
      else
        let key = getFieldEntryKey al nm;
            target = (if newTarget = Undefined_target then parentTarget else newTarget)
        in collectFieldsImpl fuel gdv ctx rest parentTarget newTarget
             (recordField key target (Field l al nm dirs sub) acc))"
| "collectFieldsImpl fuel gdv ctx (InlineFragment tc dirs sels # rest) parentTarget newTarget acc =
     (if \<not> shouldIncludeNode gdv (ctxVariableValues ctx) dirs
         \<or> \<not> doesFragmentConditionMatch (ctxSchema ctx) tc (runtimeType ctx)
      then collectFieldsImpl fuel gdv ctx rest parentTarget newTarget acc
      else
        (case getDeferValues gdv (ctxOperation ctx) (ctxVariableValues ctx) dirs of
           Inl e \<Rightarrow> Some (Inl e)
         | Inr defer \<Rightarrow>
             (case (case defer of
                      None \<Rightarrow> (newTarget, acc)
                    | Some d \<Rightarrow> newDeferUsage d parentTarget acc) of
                (target, acc1) \<Rightarrow>
                  (case collectFieldsImpl fuel gdv ctx sels parentTarget target acc1 of
                     Some (Inr acc2) \<Rightarrow> collectFieldsImpl fuel gdv ctx rest parentTarget newTarget acc2
                   | r \<Rightarrow> r))))"
| "collectFieldsImpl fuel gdv ctx (FragmentSpread fragName dirs # rest) parentTarget newTarget acc =
     (if \<not> shouldIncludeNode gdv (ctxVariableValues ctx) dirs
      then collectFieldsImpl fuel gdv ctx rest parentTarget newTarget acc
      else
        (case getDeferValues gdv (ctxOperation ctx) (ctxVariableValues ctx) dirs of
           Inl e \<Rightarrow> Some (Inl e)
         | Inr defer \<Rightarrow>
             if fragName \<in> set (visitedFragmentNames acc) \<and> defer = None
             then collectFieldsImpl fuel gdv ctx rest parentTarget newTarget acc
             else
               (case fragments ctx fragName of
                  None \<Rightarrow> collectFieldsImpl fuel gdv ctx rest parentTarget newTarget acc
                | Some fragment \<Rightarrow>
                    if \<not> doesFragmentConditionMatch (ctxSchema ctx) (typeCondition fragment)
                           (runtimeType ctx)
                    then collectFieldsImpl fuel gdv ctx rest parentTarget newTarget acc
                    else
                      (case (case defer of
                               None \<Rightarrow>
                                 (newTarget,
                                  acc\<lparr>visitedFragmentNames :=
                                        set_add (visitedFragmentNames acc) fragName\<rparr>)
                             | Some d \<Rightarrow> newDeferUsage d parentTarget acc) of
                         (target, acc1) \<Rightarrow>
                           (case fuel of
                              0 \<Rightarrow> None
                            | Suc fuel' \<Rightarrow>
                                (case collectFieldsImpl fuel' gdv ctx (selectionSet fragment)
                                        parentTarget target acc1 of
                                   Some (Inr acc2) \<Rightarrow>
                                     collectFieldsImpl fuel gdv ctx rest parentTarget newTarget acc2
                                 | r \<Rightarrow> r))))))"

subsection \<open>Grouped-field-set builder\<close>

text \<open>Modelled from the spec: \<^verbatim>\<open>isSameSet\<close> (jsutils/isSameSet.mjs is not among the
  sources): set equality by membership, not by reference.\<close>

definition isSameSet :: "'a list \<Rightarrow> 'a list \<Rightarrow> bool" where
  "isSameSet setA setB =
     (list_all (\<lambda>item. item \<in> set setB) setA \<and> list_all (\<lambda>item. item \<in> set setA) setB)"

text \<open>Modelled from the spec: \<^verbatim>\<open>getBySet\<close> (jsutils/getBySet.mjs is not among the
  sources): the value stored under the first key that is the same set as the one given.\<close>

fun getBySet :: "('a list \<times> 'v) list \<Rightarrow> 'a list \<Rightarrow> 'v option" where
  "getBySet [] setToMatch = None"
| "getBySet ((s, v) # rest) setToMatch =
     (if isSameSet s setToMatch then Some v else getBySet rest setToMatch)"

text \<open>The object that \<^verbatim>\<open>getBySet\<close> returns is mutated in place
  (\<^verbatim>\<open>targetSetDetails.keys.add\<close>): the update of the entry it was found in.\<close>

fun updateBySet :: "('a list \<times> 'v) list \<Rightarrow> 'a list \<Rightarrow> ('v \<Rightarrow> 'v) \<Rightarrow> ('a list \<times> 'v) list" where
  "updateBySet [] setToMatch f = []"
| "updateBySet ((s, v) # rest) setToMatch f =
     (if isSameSet s setToMatch then (s, f v) # rest else (s, v) # updateBySet rest setToMatch f)"

text \<open>\<^verbatim>\<open>new Set(list)\<close>.\<close>

definition set_of_list :: "'a list \<Rightarrow> 'a list" where
  "set_of_list xs = foldl set_add [] xs"

definition NON_DEFERRED_TARGET_SET :: "target list" where
  "NON_DEFERRED_TARGET_SET = set_of_list [Undefined_target]"

record targetSetDetails =
  keys :: "string list"
  shouldInitiateDefer :: bool

text \<open>The inner loop of \<^verbatim>\<open>getTargetSetDetails\<close> over the targets of one key.\<close>

definition maskingTargetList :: "target list \<Rightarrow> target list" where
  "maskingTargetList targets =
     filter (\<lambda>target. target = Undefined_target
                \<or> list_all (\<lambda>ancestor. ancestor \<notin> set targets) (ancestors target))
       targets"

text \<open>One round of the loop over \<^verbatim>\<open>targetsByKey\<close>.\<close>

definition targetSetDetailsStep ::
  "target list \<Rightarrow> string list \<times> (target list \<times> targetSetDetails) list \<Rightarrow> string \<times> target list
     \<Rightarrow> string list \<times> (target list \<times> targetSetDetails) list" where
  "targetSetDetailsStep parentTargets st entry =
     (case st of (parentTargetKeys, targetSetDetailsMap) \<Rightarrow>
      case entry of (responseKey, targets) \<Rightarrow>
        let maskingTargets = set_of_list (maskingTargetList targets) in
        if isSameSet maskingTargets parentTargets
        then (set_add parentTargetKeys responseKey, targetSetDetailsMap)
        else
          (case getBySet targetSetDetailsMap maskingTargets of
             None \<Rightarrow>
               (parentTargetKeys,
                targetSetDetailsMap @
                  [(maskingTargets,
                    \<lparr>keys = set_add [] responseKey,
                     shouldInitiateDefer =
                       list_ex (\<lambda>deferUsage. deferUsage \<notin> set parentTargets)
                         (maskingTargetList targets)\<rparr>)])
           | Some targetSetDetails \<Rightarrow>
               (parentTargetKeys,
                updateBySet targetSetDetailsMap maskingTargets
                  (\<lambda>d. d\<lparr>keys := set_add (keys d) responseKey\<rparr>))))"

definition getTargetSetDetails ::
  "(string \<times> target list) list \<Rightarrow> target list
     \<Rightarrow> string list \<times> (target list \<times> targetSetDetails) list" where
  "getTargetSetDetails tbk parentTargets = foldl (targetSetDetailsStep parentTargets) ([], []) tbk"

record fieldGroup =
  groupFields :: "(selection \<times> target) list"
  groupTargets :: "target list"

type_synonym fieldsByTargetMap = "(target \<times> (string \<times> selection list) list) list"
type_synonym groupedFieldSetMap = "(string \<times> fieldGroup) list"

text \<open>The loop \<^verbatim>\<open>for (const target of targetsByKey.get(key))\<close>. The lookups carry
  non-null assertions only: a missing entry makes the next use of the value throw.\<close>

fun collectKeyFields ::
  "string \<Rightarrow> target list \<Rightarrow> fieldsByTargetMap \<Rightarrow> (selection \<times> target) list
     \<Rightarrow> error + (selection \<times> target) list \<times> fieldsByTargetMap" where
  "collectKeyFields key [] fbt fs = Inr (fs, fbt)"
| "collectKeyFields key (target # rest) fbt fs =
     (case map_get fbt target of
        None \<Rightarrow> Inl TypeError
      | Some fieldsForTarget \<Rightarrow>
          (case map_get fieldsForTarget key of
             None \<Rightarrow> Inl TypeError
           | Some nodes \<Rightarrow>
               collectKeyFields key rest
                 (map_set fbt target (map_delete fieldsForTarget key))
                 (fs @ map (\<lambda>node. (node, target)) nodes)))"

text \<open>The loop \<^verbatim>\<open>for (const [key] of firstFields)\<close>. The body deletes only the
  current key from the maps it reads, so the keys still to come are those \<open>firstFields\<close>
  had when the loop began.\<close>

fun groupKeys ::
  "string list \<Rightarrow> string list \<Rightarrow> target list \<Rightarrow> (string \<times> target list) list
     \<Rightarrow> fieldsByTargetMap \<Rightarrow> groupedFieldSetMap
     \<Rightarrow> error + groupedFieldSetMap \<times> fieldsByTargetMap" where
  "groupKeys [] ks maskingTargets tbk fbt gfs = Inr (gfs, fbt)"
| "groupKeys (key # rest) ks maskingTargets tbk fbt gfs =
     (if key \<in> set ks then
        (let fieldGroup = (case map_get gfs key of
                             None \<Rightarrow> \<lparr>groupFields = [], groupTargets = maskingTargets\<rparr>
                           | Some g \<Rightarrow> g)
         in case map_get tbk key of
              None \<Rightarrow> Inl TypeError
            | Some ts \<Rightarrow>
                (case collectKeyFields key ts fbt (groupFields fieldGroup) of
                   Inl e \<Rightarrow> Inl e
                 | Inr (fs, fbt') \<Rightarrow>
                     groupKeys rest ks maskingTargets tbk fbt'
                       (map_set gfs key (fieldGroup\<lparr>groupFields := fs\<rparr>))))
      else groupKeys rest ks maskingTargets tbk fbt gfs)"

definition getOrderedGroupedFieldSet ::
  "string list \<Rightarrow> target list \<Rightarrow> (string \<times> target list) list \<Rightarrow> fieldsByTargetMap
     \<Rightarrow> error + groupedFieldSetMap \<times> fieldsByTargetMap" where
  "getOrderedGroupedFieldSet ks maskingTargets tbk fbt =
     (let firstTarget = (case maskingTargets of [] \<Rightarrow> Undefined_target | t # _ \<Rightarrow> t) in
      case map_get fbt firstTarget of
        None \<Rightarrow> Inl TypeError
      | Some firstFields \<Rightarrow> groupKeys (map fst firstFields) ks maskingTargets tbk fbt [])"

record groupedFieldSetDetails =
  detailsGroupedFieldSet :: groupedFieldSetMap
  detailsShouldInitiateDefer :: bool

text \<open>The loop of \<^verbatim>\<open>buildGroupedFieldSets\<close> over \<^verbatim>\<open>targetSetDetailsMap\<close>; the
  field accumulator, which \<^verbatim>\<open>getOrderedGroupedFieldSet\<close> consumes, is threaded.\<close>

fun buildNewGroupedFieldSets ::
  "(target list \<times> targetSetDetails) list \<Rightarrow> (string \<times> target list) list \<Rightarrow> fieldsByTargetMap
     \<Rightarrow> (target list \<times> groupedFieldSetDetails) list
     \<Rightarrow> error + (target list \<times> groupedFieldSetDetails) list" where
  "buildNewGroupedFieldSets [] tbk fbt out = Inr out"
| "buildNewGroupedFieldSets ((maskingTargets, d) # rest) tbk fbt out =
     (case getOrderedGroupedFieldSet (keys d) maskingTargets tbk fbt of
        Inl e \<Rightarrow> Inl e
      | Inr (newGroupedFieldSet, fbt') \<Rightarrow>
          buildNewGroupedFieldSets rest tbk fbt'
            (out @ [(maskingTargets,
                     \<lparr>detailsGroupedFieldSet = newGroupedFieldSet,
                      detailsShouldInitiateDefer = shouldInitiateDefer d\<rparr>)]))"

definition buildGroupedFieldSets ::
  "(string \<times> target list) list \<Rightarrow> fieldsByTargetMap \<Rightarrow> target list
     \<Rightarrow> error + groupedFieldSetMap \<times> (target list \<times> groupedFieldSetDetails) list" where
  "buildGroupedFieldSets tbk fbt parentTargets =
     (case getTargetSetDetails tbk parentTargets of
        (parentTargetKeys, targetSetDetailsMap) \<Rightarrow>
          (case (if parentTargetKeys \<noteq> []
                 then getOrderedGroupedFieldSet parentTargetKeys parentTargets tbk fbt
                 else Inr ([], fbt)) of
             Inl e \<Rightarrow> Inl e
           | Inr (gfs, fbt1) \<Rightarrow>
               (case buildNewGroupedFieldSets targetSetDetailsMap tbk fbt1 [] of
                  Inl e \<Rightarrow> Inl e
                | Inr details \<Rightarrow> Inr (gfs, details))))"


definition emptyAccumulators :: accumulators where
  "emptyAccumulators =
     \<lparr>fieldsByTarget = [], targetsByKey = [], newDeferUsages = [],
      visitedFragmentNames = [], nextTargetId = 0\<rparr>"


subsection \<open>Concrete collaborators and documents\<close>

text \<open>An instance of the coercion collaborator for documents whose directive arguments
  are literals or variables: the node's directive of the asked name is looked up, and its
  arguments are read off, a variable through the variable values. It serves to run the
  collector on concrete documents.\<close>

fun directiveDefName :: "directive \<Rightarrow> string" where
  "directiveDefName GraphQLSkipDirective = ''skip''"
| "directiveDefName GraphQLIncludeDirective = ''include''"
| "directiveDefName GraphQLDeferDirective = ''defer''"

fun literalValue :: "variableValues \<Rightarrow> valueNode \<Rightarrow> jsvalue option" where
  "literalValue vars (BooleanValue b) = Some (JSBool b)"
| "literalValue vars (StringValue s) = Some (JSString s)"
| "literalValue vars (IntValue i) = Some (JSNumber i)"
| "literalValue vars NullValue = Some JSNull"
| "literalValue vars (Variable v) = vars v"

definition literalDirectiveValues :: directiveValues where
  "literalDirectiveValues d node vars =
     (case find (\<lambda>dn. directiveName dn = directiveDefName d) node of
        None \<Rightarrow> None
      | Some dn \<Rightarrow>
          Some (\<lambda>arg. case map_of (arguments dn) arg of
                        None \<Rightarrow> None
                      | Some v \<Rightarrow> literalValue vars v))"

definition noVariables :: variableValues where
  "noVariables = (\<lambda>v. None)"

definition queryType :: gqlType where
  "queryType = GqlType ''Query'' ObjectType"

definition sampleSchema :: schema where
  "sampleSchema =
     \<lparr>typeFromAST = (\<lambda>n. if n = ''Query'' then Some queryType else None),
      isSubType = (\<lambda>abstract maybeSub. False)\<rparr>"

definition plainField :: "nat \<Rightarrow> string \<Rightarrow> selection" where
  "plainField l nm = Field l None nm [] []"

definition deferDirective :: directiveNode where
  "deferDirective = DirectiveNode ''defer'' []"

text \<open>The document \<^verbatim>\<open>{ a b ... @defer { b c } }\<close>.\<close>

definition maskedDocument :: operationDefinition where
  "maskedDocument =
     \<lparr>operation = QUERY,
      rootSelectionSet =
        [plainField 10 ''a'', plainField 11 ''b'',
         InlineFragment None [deferDirective] [plainField 12 ''b'', plainField 13 ''c'']]\<rparr>"

definition noFragments :: "string \<Rightarrow> fragmentDefinition option" where
  "noFragments = (\<lambda>n. None)"

text \<open>The defer usage that the collector creates for the fragment of the document
  above, as a function of the coerced label.\<close>

definition maskedDeferUsage :: "string option \<Rightarrow> target" where
  "maskedDeferUsage lbl = DeferUsage 0 lbl [Undefined_target]"

text \<open>The per-key target sets that the collector builds for that document.\<close>

definition maskedTargetsByKey :: "string option \<Rightarrow> (string \<times> target list) list" where
  "maskedTargetsByKey lbl =
     [(''a'', [Undefined_target]),
      (''b'', [Undefined_target, maskedDeferUsage lbl]),
      (''c'', [maskedDeferUsage lbl])]"

text \<open>The per-target field accumulators that the collector builds for that document.\<close>

definition maskedFieldsByTarget :: "string option \<Rightarrow> fieldsByTargetMap" where
  "maskedFieldsByTarget lbl =
     [(Undefined_target, [(''a'', [plainField 10 ''a'']), (''b'', [plainField 11 ''b''])]),
      (maskedDeferUsage lbl, [(''b'', [plainField 12 ''b'']), (''c'', [plainField 13 ''c''])])]"

text \<open>A collection context over the sample schema, without variables.\<close>

definition sampleContext ::
  "(string \<Rightarrow> fragmentDefinition option) \<Rightarrow> operationDefinition \<Rightarrow> collectContext" where
  "sampleContext frags oper =
     \<lparr>ctxSchema = sampleSchema, fragments = frags, ctxVariableValues = noVariables,
      runtimeType = queryType, ctxOperation = oper\<rparr>"

text \<open>A fragment table with the one fragment \<^verbatim>\<open>fragment F on Query { x }\<close>.\<close>

definition sampleFragments :: "string \<Rightarrow> fragmentDefinition option" where
  "sampleFragments =
     (\<lambda>n. if n = ''F''
          then Some \<lparr>typeCondition = Some ''Query'', selectionSet = [plainField 20 ''x'']\<rparr>
          else None)"

definition queryOperation :: "selection list \<Rightarrow> operationDefinition" where
  "queryOperation sels = \<lparr>operation = QUERY, rootSelectionSet = sels\<rparr>"

subsection \<open>Predicates of the specification\<close>

text \<open>The masking target set of an entry of \<^verbatim>\<open>targetsByKey\<close>, as a set, and the keys
  of \<^verbatim>\<open>targetsByKey\<close> that have a given masking target set, in map order.\<close>

definition maskOf :: "string \<times> target list \<Rightarrow> target set" where
  "maskOf entry = set (maskingTargetList (snd entry))"

definition keysMaskedBy :: "target set \<Rightarrow> (string \<times> target list) list \<Rightarrow> string list" where
  "keysMaskedBy S tbk = map fst (filter (\<lambda>entry. maskOf entry = S) tbk)"

text \<open>What the partitioning step has to establish for the parent target set \<open>P\<close>.\<close>

definition partitioned ::
  "target list \<Rightarrow> (string \<times> target list) list
     \<Rightarrow> string list \<times> (target list \<times> targetSetDetails) list \<Rightarrow> bool" where
  "partitioned P tbk st =
     (fst st = keysMaskedBy (set P) tbk
      \<and> (\<forall>e \<in> set (snd st).
            set (fst e) \<noteq> set P
            \<and> keys (snd e) = keysMaskedBy (set (fst e)) tbk
            \<and> keys (snd e) \<noteq> []
            \<and> shouldInitiateDefer (snd e) = (\<exists>t \<in> set (fst e). t \<notin> set P))
      \<and> distinct (map (\<lambda>e. set (fst e)) (snd st))
      \<and> (\<forall>x \<in> set tbk. maskOf x \<noteq> set P \<longrightarrow> (\<exists>e \<in> set (snd st). set (fst e) = maskOf x)))"

text \<open>The node list accumulated for a key under a target (the two chained lookups
  \<^verbatim>\<open>fieldsByTarget.get(target).get(key)\<close>), and the same with an absent entry read
  as the empty list.\<close>

definition lookupNodes :: "fieldsByTargetMap \<Rightarrow> target \<Rightarrow> string \<Rightarrow> selection list option" where
  "lookupNodes fbt T K = (case map_get fbt T of None \<Rightarrow> None | Some m \<Rightarrow> map_get m K)"

definition nodesFor :: "fieldsByTargetMap \<Rightarrow> target \<Rightarrow> string \<Rightarrow> selection list" where
  "nodesFor fbt T K = (case lookupNodes fbt T K of None \<Rightarrow> [] | Some ns \<Rightarrow> ns)"

text \<open>Every inner map of the field accumulator has distinct keys, as a \<^verbatim>\<open>Map\<close> has.\<close>

definition innerDistinct :: "fieldsByTargetMap \<Rightarrow> bool" where
  "innerDistinct fbt = (\<forall>T m. map_get fbt T = Some m \<longrightarrow> distinct (map fst m))"

text \<open>The nodes of a key under each target of its per-key target set, in the order of that
  set, each node paired with the target it was accumulated under.\<close>

definition fieldsOfKey ::
  "(string \<times> target list) list \<Rightarrow> fieldsByTargetMap \<Rightarrow> string \<Rightarrow> (selection \<times> target) list" where
  "fieldsOfKey tbk fbt K =
     concat (map (\<lambda>T. map (\<lambda>node. (node, T)) (nodesFor fbt T K))
               (case map_get tbk K of None \<Rightarrow> [] | Some ts \<Rightarrow> ts))"

text \<open>The field list that the specification's sentence describes instead: the same
  concatenation, restricted to the targets of the key's masking target set.\<close>

definition fieldsOfMaskingTargets ::
  "(string \<times> target list) list \<Rightarrow> fieldsByTargetMap \<Rightarrow> string \<Rightarrow> (selection \<times> target) list" where
  "fieldsOfMaskingTargets tbk fbt K =
     concat (map (\<lambda>T. map (\<lambda>node. (node, T)) (nodesFor fbt T K))
               (maskingTargetList (case map_get tbk K of None \<Rightarrow> [] | Some ts \<Rightarrow> ts)))"

text \<open>A key is ready when every lookup that the builder makes for it finds an entry.\<close>

definition ready :: "(string \<times> target list) list \<Rightarrow> fieldsByTargetMap \<Rightarrow> string \<Rightarrow> bool" where
  "ready tbk fbt K =
     (\<exists>ts. map_get tbk K = Some ts \<and> distinct ts \<and> (\<forall>T \<in> set ts. lookupNodes fbt T K \<noteq> None))"

text \<open>The two accumulators are synchronized: they are maps (distinct keys), the target set
  of a key is a non-empty set, and every target listed for a key has a non-empty node list
  for that key in the field accumulator.\<close>

definition synchronizedMaps :: "(string \<times> target list) list \<Rightarrow> fieldsByTargetMap \<Rightarrow> bool" where
  "synchronizedMaps tbk fbt =
     (distinct (map fst tbk)
      \<and> innerDistinct fbt
      \<and> (\<forall>K ts. map_get tbk K = Some ts \<longrightarrow>
            ts \<noteq> [] \<and> distinct ts
            \<and> (\<forall>T \<in> set ts. \<exists>ns. lookupNodes fbt T K = Some ns \<and> ns \<noteq> [])))"

definition synchronized :: "accumulators \<Rightarrow> bool" where
  "synchronized acc = synchronizedMaps (targetsByKey acc) (fieldsByTarget acc)"

text \<open>The target whose field map gives a group its key order: the first masking target,
  \<^verbatim>\<open>undefined\<close> for an empty set.\<close>

definition firstTargetOf :: "target list \<Rightarrow> target" where
  "firstTargetOf maskingTargets = (case maskingTargets of [] \<Rightarrow> Undefined_target | t # _ \<Rightarrow> t)"

text \<open>An entry of \<^verbatim>\<open>newGroupedFieldSetDetails\<close> agrees with the entry of
  \<^verbatim>\<open>targetSetDetailsMap\<close> it was built from: the same masking set, a group for exactly
  the keys of the entry, each with that masking set as its targets, and the same flag.\<close>

definition sameGroups ::
  "target list \<times> targetSetDetails \<Rightarrow> target list \<times> groupedFieldSetDetails \<Rightarrow> bool" where
  "sameGroups e out =
     (fst out = fst e
      \<and> fst ` set (detailsGroupedFieldSet (snd out)) = set (keys (snd e))
      \<and> (\<forall>g \<in> snd ` set (detailsGroupedFieldSet (snd out)). groupTargets g = fst e)
      \<and> detailsShouldInitiateDefer (snd out) = shouldInitiateDefer (snd e))"

section \<open>Properties of the directive evaluator\<close>

text \<open>
  C6. \<^verbatim>\<open>getDeferValues\<close> returns none exactly when the selection has no
  \<^verbatim>\<open>@defer\<close> directive values or the coerced \<^verbatim>\<open>if\<close> argument is \<^verbatim>\<open>false\<close>.
  Otherwise it throws the invariant violation exactly when the operation is a subscription,
  and for any other operation it returns the defer record whose label is the directive's
  label when that is a string, and absent otherwise. It throws nothing else.
\<close>

theorem getDeferValues_outcomes:
  "(getDeferValues gdv oper vars node = Inr None) =
     (gdv GraphQLDeferDirective node vars = None
      \<or> (\<exists>defer. gdv GraphQLDeferDirective node vars = Some defer
                   \<and> defer ''if'' = Some (JSBool False)))
   \<and> (getDeferValues gdv oper vars node = Inl InvariantViolation) =
     (getDeferValues gdv oper vars node \<noteq> Inr None \<and> operation oper = SUBSCRIPTION)
   \<and> (\<forall>r. (getDeferValues gdv oper vars node = Inr (Some r)) =
          (\<exists>defer. gdv GraphQLDeferDirective node vars = Some defer
                   \<and> defer ''if'' \<noteq> Some (JSBool False)
                   \<and> operation oper \<noteq> SUBSCRIPTION
                   \<and> r = \<lparr>deferLabel =
                          (case defer ''label'' of Some (JSString s) \<Rightarrow> Some s | _ \<Rightarrow> None)\<rparr>))
   \<and> getDeferValues gdv oper vars node \<noteq> Inl TypeError"
  by (cases "gdv GraphQLDeferDirective node vars") (auto simp: getDeferValues_def)

text \<open>
  C7. \<^verbatim>\<open>shouldIncludeNode\<close> returns false exactly when the \<^verbatim>\<open>@skip\<close> values have
  \<^verbatim>\<open>if\<close> equal to \<^verbatim>\<open>true\<close>, or the \<^verbatim>\<open>@include\<close> values are present with
  \<^verbatim>\<open>if\<close> equal to \<^verbatim>\<open>false\<close>; in every other case it returns true. A selection
  with \<^verbatim>\<open>@skip(if: true) @include(if: true)\<close> is excluded.
\<close>

theorem shouldIncludeNode_skip_then_include:
  "shouldIncludeNode gdv vars node =
     (\<not> ((\<exists>skip. gdv GraphQLSkipDirective node vars = Some skip
                   \<and> skip ''if'' = Some (JSBool True))
         \<or> (\<exists>incl. gdv GraphQLIncludeDirective node vars = Some incl
                   \<and> incl ''if'' = Some (JSBool False))))
   \<and> shouldIncludeNode literalDirectiveValues noVariables
         [DirectiveNode ''skip'' [(''if'', BooleanValue True)],
          DirectiveNode ''include'' [(''if'', BooleanValue True)]] = False"
proof
  show "shouldIncludeNode gdv vars node =
     (\<not> ((\<exists>skip. gdv GraphQLSkipDirective node vars = Some skip
                   \<and> skip ''if'' = Some (JSBool True))
         \<or> (\<exists>incl. gdv GraphQLIncludeDirective node vars = Some incl
                   \<and> incl ''if'' = Some (JSBool False))))"
    by (cases "gdv GraphQLSkipDirective node vars";
        cases "gdv GraphQLIncludeDirective node vars")
       (auto simp: shouldIncludeNode_def Let_def)
next
  show "shouldIncludeNode literalDirectiveValues noVariables
         [DirectiveNode ''skip'' [(''if'', BooleanValue True)],
          DirectiveNode ''include'' [(''if'', BooleanValue True)]] = False"
    by (simp add: shouldIncludeNode_def literalDirectiveValues_def Let_def)
qed

section \<open>Properties of the fragment condition resolver\<close>

text \<open>
  C8. \<^verbatim>\<open>doesFragmentConditionMatch\<close> returns true if and only if there is no type
  condition, or the condition resolves to the candidate type itself, or it resolves to an
  abstract type of which the schema reports the candidate as a subtype. It is a total
  boolean function: in every other case, a condition that resolves to no type included, it
  returns false, and no branch throws.
\<close>

theorem doesFragmentConditionMatch_iff:
  "doesFragmentConditionMatch sch tc candidate =
     (tc = None
      \<or> (\<exists>n. tc = Some n
            \<and> (typeFromAST sch n = Some candidate
                 \<or> (\<exists>ct. typeFromAST sch n = Some ct
                          \<and> (kindOf ct = InterfaceType \<or> kindOf ct = UnionType)
                          \<and> isSubType sch ct candidate))))
   \<and> doesFragmentConditionMatch (sch\<lparr>typeFromAST := (\<lambda>n. None)\<rparr>) (Some n0) candidate = False"
proof
  show "doesFragmentConditionMatch sch tc candidate =
     (tc = None
      \<or> (\<exists>n. tc = Some n
            \<and> (typeFromAST sch n = Some candidate
                 \<or> (\<exists>ct. typeFromAST sch n = Some ct
                          \<and> (kindOf ct = InterfaceType \<or> kindOf ct = UnionType)
                          \<and> isSubType sch ct candidate))))"
  proof (cases tc)
    case None
    then show ?thesis by (simp add: doesFragmentConditionMatch_def)
  next
    case (Some n)
    then show ?thesis
      by (cases "typeFromAST sch n") (auto simp: doesFragmentConditionMatch_def Let_def)
  qed
next
  show "doesFragmentConditionMatch (sch\<lparr>typeFromAST := (\<lambda>n. None)\<rparr>) (Some n0) candidate = False"
    by (simp add: doesFragmentConditionMatch_def)
qed

section \<open>Masking and partitioning\<close>

subsection \<open>Sets as lists\<close>

lemma isSameSet_iff: "isSameSet a b = (set a = set b)"
  by (auto simp: isSameSet_def list_all_iff)

lemma set_set_add: "set (set_add s x) = insert x (set s)"
  by (auto simp: set_add_def)

lemma distinct_set_add: "distinct s \<Longrightarrow> distinct (set_add s x)"
  by (auto simp: set_add_def)

lemma set_foldl_set_add: "set (foldl set_add acc xs) = set acc \<union> set xs"
  by (induction xs arbitrary: acc) (auto simp: set_set_add)

lemma set_set_of_list: "set (set_of_list xs) = set xs"
  by (simp add: set_of_list_def set_foldl_set_add)

lemma maskingTargetList_member:
  "T \<in> set (maskingTargetList ts) \<longleftrightarrow>
     T \<in> set ts \<and> (T = Undefined_target \<or> (\<forall>a \<in> set (ancestors T). a \<notin> set ts))"
  by (auto simp: maskingTargetList_def list_all_iff)

lemma ancestor_smaller: "T \<noteq> Undefined_target \<Longrightarrow> a \<in> set (ancestors T) \<Longrightarrow> size a < size T"
  by (cases T) (auto simp: less_Suc_eq_le size_list_estimation')

lemma maskingTargetList_nonempty:
  assumes "ts \<noteq> []"
  shows "maskingTargetList ts \<noteq> []"
proof -
  define T where "T = arg_min_list size ts"
  have Tin: "T \<in> set ts"
    unfolding T_def using assms by (rule arg_min_list_in)
  have "size T = Min (size ` set ts)"
    unfolding T_def using assms by (rule f_arg_min_list_f)
  then have least: "size T \<le> size T'" if "T' \<in> set ts" for T'
    using that by simp
  have "a \<notin> set ts" if "T \<noteq> Undefined_target" "a \<in> set (ancestors T)" for a
    using ancestor_smaller [OF that] least [of a] by auto
  with Tin have "T \<in> set (maskingTargetList ts)"
    unfolding maskingTargetList_member by blast
  then show ?thesis by auto
qed

subsection \<open>The loop of getTargetSetDetails\<close>

lemma getBySet_None_iff:
  "getBySet m S = None \<longleftrightarrow> (\<forall>e \<in> set m. set (fst e) \<noteq> set S)"
  by (induction m S rule: getBySet.induct) (auto simp: isSameSet_iff)

lemma updateBySet_distinct:
  "distinct (map (\<lambda>e. set (fst e)) m) \<Longrightarrow>
   updateBySet m S f = map (\<lambda>e. if set (fst e) = set S then (fst e, f (snd e)) else e) m"
proof (induction m S f rule: updateBySet.induct)
  case (1 S f)
  then show ?case by simp
next
  case (2 s v rest S f)
  show ?case
  proof (cases "set s = set S")
    case True
    with 2 have "\<forall>e \<in> set rest. set (fst e) \<noteq> set S" by auto
    then have "map (\<lambda>e. if set (fst e) = set S then (fst e, f (snd e)) else e) rest = rest"
      by (induction rest) auto
    with True show ?thesis by (simp add: isSameSet_iff)
  next
    case False
    with 2 show ?thesis by (simp add: isSameSet_iff)
  qed
qed

lemma keysMaskedBy_snoc:
  "keysMaskedBy S (xs @ [x]) = keysMaskedBy S xs @ (if maskOf x = S then [fst x] else [])"
  by (simp add: keysMaskedBy_def)

lemma keysMaskedBy_subset: "set (keysMaskedBy S xs) \<subseteq> fst ` set xs"
  by (auto simp: keysMaskedBy_def)

lemma partitioned_step:
  assumes inv: "partitioned P xs st"
    and fresh: "fst x \<notin> fst ` set xs"
  shows "partitioned P (xs @ [x]) (targetSetDetailsStep P st x)"
proof -
  obtain ptk tsdm where st: "st = (ptk, tsdm)" by (cases st)
  obtain K ts where x: "x = (K, ts)" by (cases x)
  let ?M = "set_of_list (maskingTargetList ts)"
  have setM: "set ?M = maskOf x" by (simp add: set_set_of_list maskOf_def x)
  have Kfresh: "K \<notin> set (keysMaskedBy S xs)" for S
    using fresh keysMaskedBy_subset [of S xs] by (auto simp: x)
  show ?thesis
  proof (cases "maskOf x = set P")
    case True
    have step: "targetSetDetailsStep P st x = (ptk @ [K], tsdm)"
      using True setM inv Kfresh [of "set P"]
      by (simp add: targetSetDetailsStep_def st x isSameSet_iff set_add_def partitioned_def)
    show ?thesis
      unfolding step using inv True
      by (auto simp: partitioned_def st keysMaskedBy_snoc x)
  next
    case False
    show ?thesis
    proof (cases "getBySet tsdm ?M")
      case None
      then have nomatch: "\<forall>e \<in> set tsdm. set (fst e) \<noteq> maskOf x"
        by (simp add: getBySet_None_iff setM)
      have step: "targetSetDetailsStep P st x =
          (ptk, tsdm @ [(?M, \<lparr>keys = [K], shouldInitiateDefer = (\<exists>t \<in> maskOf x. t \<notin> set P)\<rparr>)])"
        using False setM None
        by (simp add: targetSetDetailsStep_def st x isSameSet_iff set_add_def list_ex_iff maskOf_def)
      have noprev: "keysMaskedBy (maskOf x) xs = []"
      proof -
        have "maskOf y \<noteq> maskOf x" if "y \<in> set xs" for y
        proof
          assume eq: "maskOf y = maskOf x"
          with False inv that obtain e where "e \<in> set tsdm" "set (fst e) = maskOf y"
            unfolding partitioned_def st by fastforce
          with nomatch eq show False by auto
        qed
        then show ?thesis by (simp add: keysMaskedBy_def filter_empty_conv)
      qed
      show ?thesis
        unfolding step using inv False nomatch noprev setM
        by (auto simp: partitioned_def st keysMaskedBy_snoc x)
    next
      case (Some d0)
      have dist: "distinct (map (\<lambda>e. set (fst e)) tsdm)"
        using inv by (simp add: partitioned_def st)
      have step: "targetSetDetailsStep P st x =
          (ptk, map (\<lambda>e. if set (fst e) = maskOf x
                           then (fst e, (snd e)\<lparr>keys := set_add (keys (snd e)) K\<rparr>) else e) tsdm)"
        using False setM Some updateBySet_distinct [OF dist]
        by (simp add: targetSetDetailsStep_def st x isSameSet_iff)
      have add: "set_add (keys (snd e)) K = keys (snd e) @ [K]" if "e \<in> set tsdm" for e
        using inv that Kfresh unfolding partitioned_def st by (auto simp: set_add_def)
      have ex: "\<exists>e \<in> set tsdm. set (fst e) = maskOf x"
        using Some getBySet_None_iff [of tsdm ?M] setM by auto
      have dist': "map (\<lambda>e. set (fst e)) (map (\<lambda>e. if set (fst e) = maskOf x
                           then (fst e, (snd e)\<lparr>keys := set_add (keys (snd e)) K\<rparr>) else e) tsdm)
            = map (\<lambda>e. set (fst e)) tsdm"
        by (induction tsdm) auto
      let ?f = "\<lambda>e. if set (fst e) = maskOf x
                           then (fst e, (snd e)\<lparr>keys := set_add (keys (snd e)) K\<rparr>) else e"
      have c1: "ptk = keysMaskedBy (set P) (xs @ [x])"
        using inv False by (simp add: partitioned_def st keysMaskedBy_snoc)
      have c2: "set (fst e') \<noteq> set P
            \<and> keys (snd e') = keysMaskedBy (set (fst e')) (xs @ [x])
            \<and> keys (snd e') \<noteq> []
            \<and> shouldInitiateDefer (snd e') = (\<exists>t \<in> set (fst e'). t \<notin> set P)"
        if "e' \<in> set (map ?f tsdm)" for e'
      proof -
        from that have "e' \<in> ?f ` set tsdm" by simp
        then obtain e where e: "e \<in> set tsdm" "e' = ?f e" by (rule imageE) simp
        from inv e(1) have old: "set (fst e) \<noteq> set P"
            "keys (snd e) = keysMaskedBy (set (fst e)) xs" "keys (snd e) \<noteq> []"
            "shouldInitiateDefer (snd e) = (\<exists>t \<in> set (fst e). t \<notin> set P)"
          unfolding partitioned_def st by auto
        show ?thesis
        proof (cases "set (fst e) = maskOf x")
          case True
          then have "e' = (fst e, (snd e)\<lparr>keys := keys (snd e) @ [K]\<rparr>)"
            using e add by simp
          with old True show ?thesis by (simp add: keysMaskedBy_snoc x)
        next
          case False
          then have "e' = e" using e by simp
          with old False show ?thesis by (simp add: keysMaskedBy_snoc)
        qed
      qed
      have c3: "distinct (map (\<lambda>e. set (fst e)) (map ?f tsdm))"
        using dist unfolding dist' .
      have c4: "\<exists>e \<in> set (map ?f tsdm). set (fst e) = maskOf y"
        if "y \<in> set (xs @ [x])" "maskOf y \<noteq> set P" for y
      proof -
        have "\<exists>e \<in> set tsdm. set (fst e) = maskOf y"
        proof (cases "y = x")
          case True
          with ex show ?thesis by simp
        next
          case False
          with that inv show ?thesis unfolding partitioned_def st by auto
        qed
        then obtain e where "e \<in> set tsdm" "set (fst e) = maskOf y" by auto
        then have "?f e \<in> set (map ?f tsdm)" "set (fst (?f e)) = maskOf y" by simp_all
        then show ?thesis by blast
      qed
      show ?thesis
        unfolding step partitioned_def fst_conv snd_conv
        using c1 c2 c3 c4 by blast
    qed
  qed
qed

lemma partitioned_foldl:
  "distinct (map fst tbk) \<Longrightarrow> partitioned P tbk (foldl (targetSetDetailsStep P) ([], []) tbk)"
proof (induction tbk rule: rev_induct)
  case Nil
  then show ?case by (simp add: partitioned_def keysMaskedBy_def)
next
  case (snoc x xs)
  then show ?case by (auto intro!: partitioned_step)
qed

lemma keysMaskedBy_member:
  assumes "distinct (map fst tbk)" "(K, ts) \<in> set tbk"
  shows "K \<in> set (keysMaskedBy S tbk) \<longleftrightarrow> set (maskingTargetList ts) = S"
proof -
  have uniq: "ts' = ts" if "(K, ts') \<in> set tbk" for ts'
    using eq_key_imp_eq_value [OF assms(1) that assms(2)] .
  show ?thesis
  proof
    assume "K \<in> set (keysMaskedBy S tbk)"
    then obtain x where x: "x \<in> set tbk" "maskOf x = S" "fst x = K"
      unfolding keysMaskedBy_def by auto
    then have "x = (K, ts)" using uniq [of "snd x"] by (cases x) auto
    with x show "set (maskingTargetList ts) = S" by (simp add: maskOf_def)
  next
    assume "set (maskingTargetList ts) = S"
    then have "(K, ts) \<in> set (filter (\<lambda>entry. maskOf entry = S) tbk)"
      using assms(2) by (simp add: maskOf_def)
    then have "fst (K, ts) \<in> fst ` set (filter (\<lambda>entry. maskOf entry = S) tbk)"
      by (rule imageI)
    then show "K \<in> set (keysMaskedBy S tbk)" by (simp add: keysMaskedBy_def)
  qed
qed

lemma partitioned_getTargetSetDetails:
  "distinct (map fst tbk) \<Longrightarrow> partitioned P tbk (getTargetSetDetails tbk P)"
  unfolding getTargetSetDetails_def by (rule partitioned_foldl)

lemma maskedTargetsByKey_details:
  "getTargetSetDetails (maskedTargetsByKey lbl) NON_DEFERRED_TARGET_SET =
     ([''a'', ''b''],
      [([maskedDeferUsage lbl], \<lparr>keys = [''c''], shouldInitiateDefer = True\<rparr>)])"
  by (simp add: maskedTargetsByKey_def maskedDeferUsage_def getTargetSetDetails_def
      targetSetDetailsStep_def maskingTargetList_def set_of_list_def set_add_def
      isSameSet_def NON_DEFERRED_TARGET_SET_def Let_def)

section \<open>Building the grouped field sets\<close>

subsection \<open>Consuming the node lists of one key\<close>

lemma lookupNodes_consume:
  assumes "map_get fbt T = Some m"
  shows "lookupNodes (map_set fbt T (map_delete m K)) T' K' =
           (if T' = T \<and> K' = K then None else lookupNodes fbt T' K')"
  using assms
  by (auto simp: lookupNodes_def map_get_def map_set_def map_delete_def
      update_conv' delete_conv')

lemma dom_consume:
  assumes "map_get fbt T = Some m"
  shows "dom (map_of (map_set fbt T m')) = dom (map_of fbt)"
  using assms by (auto simp: map_get_def map_set_def update_conv')

lemma innerDistinct_consume:
  assumes "map_get fbt T = Some m" "innerDistinct fbt"
  shows "innerDistinct (map_set fbt T (map_delete m K))"
  using assms
  by (auto simp: innerDistinct_def map_get_def map_set_def map_delete_def update_conv'
      distinct_delete split: if_splits)

lemma collectKeyFields_effect:
  "collectKeyFields K ts fbt fs = Inr (fs', fbt') \<Longrightarrow>
     distinct ts \<and> (\<forall>T \<in> set ts. lookupNodes fbt T K \<noteq> None)
     \<and> fs' = fs @ concat (map (\<lambda>T. map (\<lambda>node. (node, T)) (nodesFor fbt T K)) ts)
     \<and> (\<forall>T' K'. lookupNodes fbt' T' K' =
                   (if K' = K \<and> T' \<in> set ts then None else lookupNodes fbt T' K'))
     \<and> dom (map_of fbt') = dom (map_of fbt)
     \<and> (innerDistinct fbt \<longrightarrow> innerDistinct fbt')"
proof (induction ts arbitrary: fbt fs)
  case Nil
  then show ?case by simp
next
  case (Cons T rest)
  from Cons.prems obtain m ns where m: "map_get fbt T = Some m" and ns: "map_get m K = Some ns"
    and rec: "collectKeyFields K rest (map_set fbt T (map_delete m K))
                (fs @ map (\<lambda>node. (node, T)) ns) = Inr (fs', fbt')"
    by (auto split: option.splits)
  let ?fbt1 = "map_set fbt T (map_delete m K)"
  note look = lookupNodes_consume [OF m, of K]
  from Cons.IH [OF rec]
  have ih: "distinct rest" "\<forall>T' \<in> set rest. lookupNodes ?fbt1 T' K \<noteq> None"
    "fs' = (fs @ map (\<lambda>node. (node, T)) ns)
             @ concat (map (\<lambda>T. map (\<lambda>node. (node, T)) (nodesFor ?fbt1 T K)) rest)"
    "\<forall>T' K'. lookupNodes fbt' T' K' =
                   (if K' = K \<and> T' \<in> set rest then None else lookupNodes ?fbt1 T' K')"
    "dom (map_of fbt') = dom (map_of ?fbt1)"
    "innerDistinct ?fbt1 \<longrightarrow> innerDistinct fbt'"
    by blast+
  have notin: "T \<notin> set rest"
    using ih(2) look by auto
  have same: "nodesFor ?fbt1 T' K = nodesFor fbt T' K" if "T' \<in> set rest" for T'
    using that notin by (auto simp: nodesFor_def look)
  have here: "nodesFor fbt T K = ns"
    using m ns by (simp add: nodesFor_def lookupNodes_def)
  have c1: "distinct (T # rest)" using ih(1) notin by simp
  have "lookupNodes fbt T K \<noteq> None"
    using m ns by (simp add: lookupNodes_def)
  moreover have "lookupNodes fbt T' K \<noteq> None" if "T' \<in> set rest" for T'
  proof -
    have "lookupNodes ?fbt1 T' K \<noteq> None" using ih(2) that by blast
    moreover have "T' \<noteq> T" using that notin by blast
    ultimately show ?thesis by (simp add: look)
  qed
  ultimately have c2: "\<forall>T' \<in> set (T # rest). lookupNodes fbt T' K \<noteq> None"
    by simp
  have c3: "fs' = fs @ concat (map (\<lambda>T. map (\<lambda>node. (node, T)) (nodesFor fbt T K)) (T # rest))"
    using ih(3) same here by (simp cong: map_cong)
  have c4: "\<forall>T' K'. lookupNodes fbt' T' K' =
                   (if K' = K \<and> T' \<in> set (T # rest) then None else lookupNodes fbt T' K')"
    using ih(4) look by auto
  have c5: "dom (map_of fbt') = dom (map_of fbt)"
    using ih(5) dom_consume [OF m] by simp
  have c6: "innerDistinct fbt \<longrightarrow> innerDistinct fbt'"
    using ih(6) innerDistinct_consume [OF m] by blast
  from c1 c2 c3 c4 c5 c6 show ?case by blast
qed

lemma collectKeyFields_succeeds:
  "distinct ts \<Longrightarrow> \<forall>T \<in> set ts. lookupNodes fbt T K \<noteq> None \<Longrightarrow>
     \<exists>r. collectKeyFields K ts fbt fs = Inr r"
proof (induction ts arbitrary: fbt fs)
  case Nil
  then show ?case by simp
next
  case (Cons T rest)
  from Cons.prems(2) obtain m ns where m: "map_get fbt T = Some m" and ns: "map_get m K = Some ns"
    by (auto simp: lookupNodes_def split: option.splits)
  have "\<forall>T' \<in> set rest. lookupNodes (map_set fbt T (map_delete m K)) T' K \<noteq> None"
    using Cons.prems lookupNodes_consume [OF m, of K] by auto
  with Cons.IH [of "map_set fbt T (map_delete m K)"] Cons.prems(1)
  show ?case using m ns by simp
qed

subsection \<open>The keys of one group\<close>

lemma map_set_fresh: "k \<notin> fst ` set al \<Longrightarrow> map_set al k v = al @ [(k, v)]"
  unfolding map_set_def by (induction al) auto

lemma map_get_fresh: "k \<notin> fst ` set al \<Longrightarrow> map_get al k = None"
  unfolding map_get_def by (simp add: map_of_eq_None_iff)

lemma fieldsOfKey_cong:
  "(\<And>T. lookupNodes fbt' T K = lookupNodes fbt T K) \<Longrightarrow> fieldsOfKey tbk fbt' K = fieldsOfKey tbk fbt K"
  by (simp add: fieldsOfKey_def nodesFor_def)

lemma ready_cong:
  "(\<And>T. lookupNodes fbt' T K = lookupNodes fbt T K) \<Longrightarrow> ready tbk fbt' K = ready tbk fbt K"
  by (simp add: ready_def)

lemma groupKeys_effect:
  "groupKeys kl ks M tbk fbt gfs = Inr (gfs', fbt') \<Longrightarrow> distinct kl \<Longrightarrow>
   set kl \<inter> fst ` set gfs = {} \<Longrightarrow>
     gfs' = gfs @ map (\<lambda>K. (K, \<lparr>groupFields = fieldsOfKey tbk fbt K, groupTargets = M\<rparr>))
                    (filter (\<lambda>K. K \<in> set ks) kl)
     \<and> (\<forall>T' K'. K' \<notin> set ks \<or> K' \<notin> set kl \<longrightarrow> lookupNodes fbt' T' K' = lookupNodes fbt T' K')
     \<and> dom (map_of fbt') = dom (map_of fbt)
     \<and> (innerDistinct fbt \<longrightarrow> innerDistinct fbt')
     \<and> (\<forall>K \<in> set kl. K \<in> set ks \<longrightarrow> ready tbk fbt K)"
proof (induction kl arbitrary: fbt gfs)
  case Nil
  then show ?case by simp
next
  case (Cons key rest)
  have fresh: "key \<notin> fst ` set gfs" and rest_fresh: "set rest \<inter> fst ` set gfs = {}"
    and dist: "distinct rest" and key_rest: "key \<notin> set rest"
    using Cons.prems by auto
  show ?case
  proof (cases "key \<in> set ks")
    case False
    with Cons.prems have rec: "groupKeys rest ks M tbk fbt gfs = Inr (gfs', fbt')" by simp
    from Cons.IH [OF rec dist rest_fresh] False show ?thesis by auto
  next
    case True
    from Cons.prems(1) True fresh obtain ts fs fbt1
      where ts: "map_get tbk key = Some ts"
        and ckf: "collectKeyFields key ts fbt [] = Inr (fs, fbt1)"
        and rec: "groupKeys rest ks M tbk fbt1
                    (map_set gfs key \<lparr>groupFields = fs, groupTargets = M\<rparr>) = Inr (gfs', fbt')"
      by (auto simp: map_get_fresh Let_def split: option.splits sum.splits)
    from collectKeyFields_effect [OF ckf]
    have fs: "fs = concat (map (\<lambda>T. map (\<lambda>node. (node, T)) (nodesFor fbt T key)) ts)"
      and ready_key: "distinct ts" "\<forall>T \<in> set ts. lookupNodes fbt T key \<noteq> None"
      and look1: "\<And>T' K'. lookupNodes fbt1 T' K' =
                   (if K' = key \<and> T' \<in> set ts then None else lookupNodes fbt T' K')"
      and dom1: "dom (map_of fbt1) = dom (map_of fbt)"
      and inner1: "innerDistinct fbt \<longrightarrow> innerDistinct fbt1"
      by auto
    have fs': "fs = fieldsOfKey tbk fbt key"
      using fs ts by (simp add: fieldsOfKey_def)
    let ?gfs1 = "gfs @ [(key, \<lparr>groupFields = fieldsOfKey tbk fbt key, groupTargets = M\<rparr>)]"
    have gfs1: "map_set gfs key \<lparr>groupFields = fs, groupTargets = M\<rparr> = ?gfs1"
      using fresh fs' by (simp add: map_set_fresh)
    have rest_fresh1: "set rest \<inter> fst ` set ?gfs1 = {}"
      using rest_fresh key_rest by auto
    from Cons.IH [OF rec [unfolded gfs1] dist rest_fresh1]
    have ih: "gfs' = ?gfs1 @ map (\<lambda>K. (K, \<lparr>groupFields = fieldsOfKey tbk fbt1 K, groupTargets = M\<rparr>))
                    (filter (\<lambda>K. K \<in> set ks) rest)"
      "\<forall>T' K'. K' \<notin> set ks \<or> K' \<notin> set rest \<longrightarrow> lookupNodes fbt' T' K' = lookupNodes fbt1 T' K'"
      "dom (map_of fbt') = dom (map_of fbt1)"
      "innerDistinct fbt1 \<longrightarrow> innerDistinct fbt'"
      "\<forall>K \<in> set rest. K \<in> set ks \<longrightarrow> ready tbk fbt1 K"
      by blast+
    have same: "fieldsOfKey tbk fbt1 K = fieldsOfKey tbk fbt K" if "K \<in> set rest" for K
    proof (rule fieldsOfKey_cong)
      fix T
      from that key_rest have "K \<noteq> key" by blast
      then show "lookupNodes fbt1 T K = lookupNodes fbt T K" by (simp add: look1)
    qed
    have c1: "gfs' = gfs @ map (\<lambda>K. (K, \<lparr>groupFields = fieldsOfKey tbk fbt K, groupTargets = M\<rparr>))
                    (filter (\<lambda>K. K \<in> set ks) (key # rest))"
      using ih(1) True same by (simp cong: map_cong)
    have c2: "\<forall>T' K'. K' \<notin> set ks \<or> K' \<notin> set (key # rest)
                \<longrightarrow> lookupNodes fbt' T' K' = lookupNodes fbt T' K'"
    proof (intro allI impI)
      fix T' K' assume a: "K' \<notin> set ks \<or> K' \<notin> set (key # rest)"
      with True have "K' \<noteq> key" by auto
      moreover from a have "K' \<notin> set ks \<or> K' \<notin> set rest" by auto
      ultimately show "lookupNodes fbt' T' K' = lookupNodes fbt T' K'"
        using ih(2) by (simp add: look1)
    qed
    have c5: "\<forall>K \<in> set (key # rest). K \<in> set ks \<longrightarrow> ready tbk fbt K"
    proof (intro ballI impI)
      fix K assume K: "K \<in> set (key # rest)" "K \<in> set ks"
      show "ready tbk fbt K"
      proof (cases "K = key")
        case True
        with ts ready_key show ?thesis by (auto simp: ready_def)
      next
        case False
        with K ih(5) have "ready tbk fbt1 K" by simp
        then show ?thesis
          using ready_cong [of fbt1 K fbt tbk] False by (simp add: look1)
      qed
    qed
    from c1 c2 ih(3,4) dom1 inner1 c5 show ?thesis by simp
  qed
qed

lemma groupKeys_succeeds:
  "distinct kl \<Longrightarrow> \<forall>K \<in> set kl. K \<in> set ks \<longrightarrow> ready tbk fbt K \<Longrightarrow>
     \<exists>r. groupKeys kl ks M tbk fbt gfs = Inr r"
proof (induction kl arbitrary: fbt gfs)
  case Nil
  then show ?case by simp
next
  case (Cons key rest)
  show ?case
  proof (cases "key \<in> set ks")
    case False
    with Cons show ?thesis by simp
  next
    case True
    with Cons.prems obtain ts where ts: "map_get tbk key = Some ts" "distinct ts"
        "\<forall>T \<in> set ts. lookupNodes fbt T key \<noteq> None"
      by (auto simp: ready_def)
    define fg where "fg = (case map_get gfs key of
                             None \<Rightarrow> \<lparr>groupFields = [], groupTargets = M\<rparr>
                           | Some g \<Rightarrow> g)"
    from collectKeyFields_succeeds [OF ts(2,3), of "groupFields fg"]
    obtain fs fbt1 where ckf: "collectKeyFields key ts fbt (groupFields fg) = Inr (fs, fbt1)"
      by auto
    from collectKeyFields_effect [OF ckf]
    have look1: "\<And>T' K'. lookupNodes fbt1 T' K' =
                   (if K' = key \<and> T' \<in> set ts then None else lookupNodes fbt T' K')"
      by auto
    have "\<forall>K \<in> set rest. K \<in> set ks \<longrightarrow> ready tbk fbt1 K"
    proof (intro ballI impI)
      fix K assume K: "K \<in> set rest" "K \<in> set ks"
      with Cons.prems have "K \<noteq> key" "ready tbk fbt K" by auto
      then show "ready tbk fbt1 K"
        using ready_cong [of fbt1 K fbt tbk] by (simp add: look1)
    qed
    with Cons.IH [of fbt1 "map_set gfs key (fg\<lparr>groupFields := fs\<rparr>)"] Cons.prems(1)
    obtain r where "groupKeys rest ks M tbk fbt1 (map_set gfs key (fg\<lparr>groupFields := fs\<rparr>)) = Inr r"
      by auto
    then show ?thesis
      using True ts(1) ckf by (simp add: fg_def Let_def)
  qed
qed

lemma getOrderedGroupedFieldSet_effect:
  assumes "getOrderedGroupedFieldSet ks M tbk fbt = Inr (gfs, fbt')" and "innerDistinct fbt"
  shows "\<exists>firstFields.
           map_get fbt (case M of [] \<Rightarrow> Undefined_target | t # _ \<Rightarrow> t) = Some firstFields
           \<and> gfs = map (\<lambda>K. (K, \<lparr>groupFields = fieldsOfKey tbk fbt K, groupTargets = M\<rparr>))
                     (filter (\<lambda>K. K \<in> set ks) (map fst firstFields))"
    and "K' \<notin> set ks \<Longrightarrow> lookupNodes fbt' T' K' = lookupNodes fbt T' K'"
    and "dom (map_of fbt') = dom (map_of fbt)"
    and "innerDistinct fbt'"
    and "\<forall>K \<in> fst ` set gfs. ready tbk fbt K"
proof -
  from assms(1) obtain firstFields
    where ff: "map_get fbt (case M of [] \<Rightarrow> Undefined_target | t # _ \<Rightarrow> t) = Some firstFields"
      and gk: "groupKeys (map fst firstFields) ks M tbk fbt [] = Inr (gfs, fbt')"
    by (auto simp: getOrderedGroupedFieldSet_def Let_def split: option.splits)
  have dist: "distinct (map fst firstFields)"
    using ff assms(2) by (auto simp: innerDistinct_def)
  from groupKeys_effect [OF gk dist]
  have eff: "gfs = map (\<lambda>K. (K, \<lparr>groupFields = fieldsOfKey tbk fbt K, groupTargets = M\<rparr>))
                    (filter (\<lambda>K. K \<in> set ks) (map fst firstFields))"
    "\<forall>T' K'. K' \<notin> set ks \<or> K' \<notin> set (map fst firstFields)
        \<longrightarrow> lookupNodes fbt' T' K' = lookupNodes fbt T' K'"
    "dom (map_of fbt') = dom (map_of fbt)"
    "innerDistinct fbt \<longrightarrow> innerDistinct fbt'"
    "\<forall>K \<in> set (map fst firstFields). K \<in> set ks \<longrightarrow> ready tbk fbt K"
    by simp_all
  show "\<exists>firstFields.
           map_get fbt (case M of [] \<Rightarrow> Undefined_target | t # _ \<Rightarrow> t) = Some firstFields
           \<and> gfs = map (\<lambda>K. (K, \<lparr>groupFields = fieldsOfKey tbk fbt K, groupTargets = M\<rparr>))
                     (filter (\<lambda>K. K \<in> set ks) (map fst firstFields))"
    using ff eff(1) by blast
  show "K' \<notin> set ks \<Longrightarrow> lookupNodes fbt' T' K' = lookupNodes fbt T' K'"
    using eff(2) by blast
  show "dom (map_of fbt') = dom (map_of fbt)" by (rule eff(3))
  show "innerDistinct fbt'" using eff(4) assms(2) by blast
  have "map fst gfs = filter (\<lambda>K. K \<in> set ks) (map fst firstFields)"
    unfolding eff(1) by (simp add: comp_def)
  then have "set (map fst gfs) = {K \<in> set (map fst firstFields). K \<in> set ks}"
    by (simp only: set_filter)
  then have "fst ` set gfs = {K \<in> set (map fst firstFields). K \<in> set ks}"
    by simp
  then show "\<forall>K \<in> fst ` set gfs. ready tbk fbt K"
    using eff(5) by blast
qed

lemma getOrderedGroupedFieldSet_succeeds:
  assumes "innerDistinct fbt"
    and "(case M of [] \<Rightarrow> Undefined_target | t # _ \<Rightarrow> t) \<in> dom (map_of fbt)"
    and "\<forall>K \<in> set ks. ready tbk fbt K"
  shows "\<exists>r. getOrderedGroupedFieldSet ks M tbk fbt = Inr r"
proof -
  from assms(2) obtain firstFields
    where ff: "map_get fbt (case M of [] \<Rightarrow> Undefined_target | t # _ \<Rightarrow> t) = Some firstFields"
    by (auto simp: map_get_def)
  have dist: "distinct (map fst firstFields)"
    using ff assms(1) by (auto simp: innerDistinct_def)
  from groupKeys_succeeds [OF dist, of ks tbk fbt M "[]"] assms(3)
  obtain r where "groupKeys (map fst firstFields) ks M tbk fbt [] = Inr r" by auto
  then show ?thesis using ff by (simp add: getOrderedGroupedFieldSet_def Let_def)
qed

subsection \<open>All groups\<close>

lemma keysMaskedBy_disjoint:
  assumes "distinct (map fst tbk)" "S \<noteq> S'"
  shows "set (keysMaskedBy S tbk) \<inter> set (keysMaskedBy S' tbk) = {}"
proof (rule ccontr)
  assume "set (keysMaskedBy S tbk) \<inter> set (keysMaskedBy S' tbk) \<noteq> {}"
  then obtain K where K: "K \<in> set (keysMaskedBy S tbk)" "K \<in> set (keysMaskedBy S' tbk)"
    by blast
  from K(1) obtain x where x: "x \<in> set tbk" "fst x = K"
    unfolding keysMaskedBy_def by auto
  then have "(K, snd x) \<in> set tbk" by (cases x) auto
  from keysMaskedBy_member [OF assms(1) this] K assms(2) show False by simp
qed

lemma synced_ready:
  assumes "distinct (map fst tbk)"
    and "\<forall>x \<in> set tbk. distinct (snd x) \<and> (\<forall>T \<in> set (snd x). lookupNodes fbt T (fst x) \<noteq> None)"
    and "K \<in> fst ` set tbk"
  shows "ready tbk fbt K"
proof -
  from assms(3) obtain x where x: "x \<in> set tbk" "fst x = K" by auto
  then have "(K, snd x) \<in> set tbk" by (cases x) auto
  with assms(1) have "map_get tbk K = Some (snd x)" by (simp add: map_get_def)
  with assms(2) x show ?thesis by (auto simp: ready_def)
qed

subsection \<open>The shape of the result\<close>

lemma getOrderedGroupedFieldSet_keys:
  assumes call: "getOrderedGroupedFieldSet ks M tbk fbt = Inr (gfs, fbt')"
    and inner: "innerDistinct fbt"
    and present: "\<forall>K \<in> set ks. lookupNodes fbt (firstTargetOf M) K \<noteq> None"
  shows "fst ` set gfs = set ks" and "\<forall>g \<in> snd ` set gfs. groupTargets g = M"
proof -
  from getOrderedGroupedFieldSet_effect(1) [OF call inner] obtain firstFields where
    ff: "map_get fbt (case M of [] \<Rightarrow> Undefined_target | t # _ \<Rightarrow> t) = Some firstFields" and
    gfs: "gfs = map (\<lambda>K. (K, \<lparr>groupFields = fieldsOfKey tbk fbt K, groupTargets = M\<rparr>))
                     (filter (\<lambda>K. K \<in> set ks) (map fst firstFields))"
    by blast
  have "map fst gfs = filter (\<lambda>K. K \<in> set ks) (map fst firstFields)"
    unfolding gfs by (simp add: comp_def)
  then have "set (map fst gfs) = {K \<in> set (map fst firstFields). K \<in> set ks}"
    by (simp only: set_filter)
  moreover have "K \<in> set (map fst firstFields)" if "K \<in> set ks" for K
  proof -
    from present that have "lookupNodes fbt (firstTargetOf M) K \<noteq> None" by blast
    with ff have "map_of firstFields K \<noteq> None"
      by (simp add: lookupNodes_def firstTargetOf_def map_get_def)
    then show ?thesis by (simp add: map_of_eq_None_iff)
  qed
  ultimately show "fst ` set gfs = set ks" by auto
  show "\<forall>g \<in> snd ` set gfs. groupTargets g = M"
    unfolding gfs by auto
qed

lemma buildNewGroupedFieldSets_result:
  assumes keys_distinct: "distinct (map fst tbk)"
  shows "innerDistinct fbt \<Longrightarrow> distinct (map (\<lambda>e. set (fst e)) tsdm) \<Longrightarrow>
     \<forall>e \<in> set tsdm. keys (snd e) = keysMaskedBy (set (fst e)) tbk
        \<and> (\<forall>K \<in> set (keys (snd e)). ready tbk fbt K
                \<and> lookupNodes fbt (firstTargetOf (fst e)) K \<noteq> None)
        \<and> firstTargetOf (fst e) \<in> dom (map_of fbt) \<Longrightarrow>
     \<exists>details. buildNewGroupedFieldSets tsdm tbk fbt out = Inr (out @ details)
        \<and> list_all2 sameGroups tsdm details"
proof (induction tsdm arbitrary: fbt out)
  case Nil
  then show ?case by simp
next
  case (Cons e rest)
  obtain M d where e: "e = (M, d)" by (cases e)
  from Cons.prems e have here: "keys d = keysMaskedBy (set M) tbk"
      "(case M of [] \<Rightarrow> Undefined_target | t # _ \<Rightarrow> t) \<in> dom (map_of fbt)"
      "\<forall>K \<in> set (keys d). ready tbk fbt K"
      "\<forall>K \<in> set (keys d). lookupNodes fbt (firstTargetOf M) K \<noteq> None"
    by (auto simp: firstTargetOf_def)
  from getOrderedGroupedFieldSet_succeeds [OF Cons.prems(1) here(2,3)]
  obtain gfs fbt1 where call: "getOrderedGroupedFieldSet (keys d) M tbk fbt = Inr (gfs, fbt1)"
    by auto
  note eff = getOrderedGroupedFieldSet_effect [OF call Cons.prems(1)]
  note ks = getOrderedGroupedFieldSet_keys [OF call Cons.prems(1) here(4)]
  have rest_ok: "\<forall>e' \<in> set rest. keys (snd e') = keysMaskedBy (set (fst e')) tbk
        \<and> (\<forall>K \<in> set (keys (snd e')). ready tbk fbt1 K
                \<and> lookupNodes fbt1 (firstTargetOf (fst e')) K \<noteq> None)
        \<and> firstTargetOf (fst e') \<in> dom (map_of fbt1)"
  proof (intro ballI conjI)
    fix e' assume e': "e' \<in> set rest"
    with Cons.prems(3) show k: "keys (snd e') = keysMaskedBy (set (fst e')) tbk" by simp
    from e' Cons.prems(3) show "firstTargetOf (fst e') \<in> dom (map_of fbt1)"
      unfolding eff(3) by simp
    from e' Cons.prems(2) e have "set (fst e') \<noteq> set M" by auto
    from keysMaskedBy_disjoint [OF keys_distinct this]
    have disj: "set (keys (snd e')) \<inter> set (keys d) = {}" by (simp add: k here(1))
    fix K assume K: "K \<in> set (keys (snd e'))"
    with disj have "K \<notin> set (keys d)" by blast
    then have same: "\<And>T. lookupNodes fbt1 T K = lookupNodes fbt T K" by (rule eff(2))
    then have "ready tbk fbt1 K = ready tbk fbt K" by (rule ready_cong)
    with e' K Cons.prems(3) show "ready tbk fbt1 K" by simp
    from e' K Cons.prems(3) show "lookupNodes fbt1 (firstTargetOf (fst e')) K \<noteq> None"
      unfolding same by simp
  qed
  from Cons.prems(2) have dist_rest: "distinct (map (\<lambda>e. set (fst e)) rest)" by simp
  let ?o = "(M, \<lparr>detailsGroupedFieldSet = gfs, detailsShouldInitiateDefer = shouldInitiateDefer d\<rparr>)"
  from Cons.IH [OF eff(4) dist_rest rest_ok, of "out @ [?o]"]
  obtain details where rec: "buildNewGroupedFieldSets rest tbk fbt1 (out @ [?o])
        = Inr ((out @ [?o]) @ details)"
    and rel: "list_all2 sameGroups rest details"
    by blast
  have "sameGroups e ?o"
    using ks by (simp add: sameGroups_def e)
  with rel have "list_all2 sameGroups (e # rest) (?o # details)" by simp
  moreover have "buildNewGroupedFieldSets (e # rest) tbk fbt out = Inr (out @ ?o # details)"
    using call rec by (simp add: e)
  ultimately show ?case by blast
qed

lemma synchronizedMaps_entry:
  assumes "synchronizedMaps tbk fbt" "x \<in> set tbk"
  shows "snd x \<noteq> [] \<and> distinct (snd x)
            \<and> (\<forall>T \<in> set (snd x). \<exists>ns. lookupNodes fbt T (fst x) = Some ns \<and> ns \<noteq> [])"
proof -
  from assms(2) have "(fst x, snd x) \<in> set tbk" by simp
  moreover from assms(1) have "distinct (map fst tbk)" by (simp add: synchronizedMaps_def)
  ultimately have "map_get tbk (fst x) = Some (snd x)"
    unfolding map_get_def by (rule map_of_is_SomeI [rotated])
  with assms(1) show ?thesis unfolding synchronizedMaps_def by blast
qed

lemma masked_key_under_first_target:
  assumes sync: "synchronizedMaps tbk fbt"
    and K: "K \<in> set (keysMaskedBy (set M) tbk)"
  shows "lookupNodes fbt (firstTargetOf M) K \<noteq> None"
proof -
  from K obtain x where x: "x \<in> set tbk" "maskOf x = set M" "fst x = K"
    unfolding keysMaskedBy_def by auto
  note at = synchronizedMaps_entry [OF sync x(1)]
  then have "maskingTargetList (snd x) \<noteq> []" by (simp add: maskingTargetList_nonempty)
  with x(2) have "M \<noteq> []" by (auto simp: maskOf_def)
  then obtain t rest where M: "M = t # rest" by (cases M) auto
  then have "t \<in> set (maskingTargetList (snd x))" using x(2) by (auto simp: maskOf_def)
  then have "t \<in> set (snd x)" by (simp add: maskingTargetList_member)
  with at x(3) have "lookupNodes fbt t K \<noteq> None" by auto
  with M show ?thesis by (simp add: firstTargetOf_def)
qed

lemma buildGroupedFieldSets_result:
  assumes sync: "synchronizedMaps tbk fbt"
    and res: "getTargetSetDetails tbk P = (ptk, tsdm)"
  shows "\<exists>gfs details. buildGroupedFieldSets tbk fbt P = Inr (gfs, details)
     \<and> fst ` set gfs = set ptk
     \<and> (\<forall>g \<in> snd ` set gfs. groupTargets g = P)
     \<and> list_all2 sameGroups tsdm details"
proof -
  from sync have keys_distinct: "distinct (map fst tbk)" and inner: "innerDistinct fbt"
    by (simp_all add: synchronizedMaps_def)
  have part: "partitioned P tbk (ptk, tsdm)"
    using partitioned_getTargetSetDetails [OF keys_distinct, of P] res by simp
  have at: "\<forall>x \<in> set tbk. distinct (snd x)
                \<and> (\<forall>T \<in> set (snd x). lookupNodes fbt T (fst x) \<noteq> None)"
    using synchronizedMaps_entry [OF sync] by fastforce
  have ready_all: "ready tbk fbt K" if "K \<in> fst ` set tbk" for K
    using synced_ready [OF keys_distinct at that] .
  have first: "lookupNodes fbt (firstTargetOf M) K \<noteq> None" if "K \<in> set (keysMaskedBy (set M) tbk)"
    for M K
    using sync that by (rule masked_key_under_first_target)
  have first_dom: "firstTargetOf M \<in> dom (map_of fbt)" if "keysMaskedBy (set M) tbk \<noteq> []" for M
  proof -
    from that obtain K where "K \<in> set (keysMaskedBy (set M) tbk)"
      by (cases "keysMaskedBy (set M) tbk") auto
    from first [OF this] show ?thesis
      by (auto simp: lookupNodes_def map_get_def split: option.splits)
  qed
  have ptk: "ptk = keysMaskedBy (set P) tbk" using part by (simp add: partitioned_def)
  have "\<exists>gfs fbt1. (if ptk \<noteq> [] then getOrderedGroupedFieldSet ptk P tbk fbt else Inr ([], fbt))
            = Inr (gfs, fbt1)
          \<and> fst ` set gfs = set ptk \<and> (\<forall>g \<in> snd ` set gfs. groupTargets g = P)
          \<and> innerDistinct fbt1 \<and> dom (map_of fbt1) = dom (map_of fbt)
          \<and> (\<forall>T K. K \<notin> set ptk \<longrightarrow> lookupNodes fbt1 T K = lookupNodes fbt T K)"
  proof (cases "ptk = []")
    case True
    with inner show ?thesis by simp
  next
    case False
    then have dom: "(case P of [] \<Rightarrow> Undefined_target | t # _ \<Rightarrow> t) \<in> dom (map_of fbt)"
      using first_dom [of P] ptk by (simp add: firstTargetOf_def)
    have rdy: "\<forall>K \<in> set ptk. ready tbk fbt K"
      using ready_all keysMaskedBy_subset [of "set P" tbk] ptk by blast
    from getOrderedGroupedFieldSet_succeeds [OF inner dom rdy]
    obtain gfs fbt1 where call: "getOrderedGroupedFieldSet ptk P tbk fbt = Inr (gfs, fbt1)"
      by auto
    note eff = getOrderedGroupedFieldSet_effect [OF call inner]
    have "\<forall>K \<in> set ptk. lookupNodes fbt (firstTargetOf P) K \<noteq> None"
      using first [of _ P] ptk by blast
    note ks = getOrderedGroupedFieldSet_keys [OF call inner this]
    from False call eff(2,3,4) ks show ?thesis by auto
  qed
  then obtain gfs fbt1
    where base: "(if ptk \<noteq> [] then getOrderedGroupedFieldSet ptk P tbk fbt else Inr ([], fbt))
            = Inr (gfs, fbt1)"
      and base_keys: "fst ` set gfs = set ptk" "\<forall>g \<in> snd ` set gfs. groupTargets g = P"
      and inner1: "innerDistinct fbt1" and dom1: "dom (map_of fbt1) = dom (map_of fbt)"
      and look1: "\<And>T K. K \<notin> set ptk \<Longrightarrow> lookupNodes fbt1 T K = lookupNodes fbt T K"
    by blast
  have entries: "\<forall>e \<in> set tsdm. keys (snd e) = keysMaskedBy (set (fst e)) tbk
        \<and> (\<forall>K \<in> set (keys (snd e)). ready tbk fbt1 K
                \<and> lookupNodes fbt1 (firstTargetOf (fst e)) K \<noteq> None)
        \<and> firstTargetOf (fst e) \<in> dom (map_of fbt1)"
  proof (intro ballI conjI)
    fix e assume e: "e \<in> set tsdm"
    with part have all: "set (fst e) \<noteq> set P
            \<and> keys (snd e) = keysMaskedBy (set (fst e)) tbk
            \<and> keys (snd e) \<noteq> []
            \<and> shouldInitiateDefer (snd e) = (\<exists>t \<in> set (fst e). t \<notin> set P)"
      unfolding partitioned_def snd_conv by blast
    then have k: "keys (snd e) = keysMaskedBy (set (fst e)) tbk"
      and ne: "keys (snd e) \<noteq> []" and np: "set (fst e) \<noteq> set P"
      by blast+
    show "keys (snd e) = keysMaskedBy (set (fst e)) tbk" by (rule k)
    show "firstTargetOf (fst e) \<in> dom (map_of fbt1)"
      unfolding dom1 using first_dom [of "fst e"] ne k by simp
    from keysMaskedBy_disjoint [OF keys_distinct np]
    have disj: "set (keys (snd e)) \<inter> set ptk = {}" by (simp add: k ptk)
    fix K assume K: "K \<in> set (keys (snd e))"
    with disj have "K \<notin> set ptk" by blast
    then have same: "\<And>T. lookupNodes fbt1 T K = lookupNodes fbt T K" by (rule look1)
    then have "ready tbk fbt1 K = ready tbk fbt K" by (rule ready_cong)
    moreover have "K \<in> fst ` set tbk"
      using K k keysMaskedBy_subset [of "set (fst e)" tbk] by auto
    ultimately show "ready tbk fbt1 K" using ready_all by simp
    show "lookupNodes fbt1 (firstTargetOf (fst e)) K \<noteq> None"
      unfolding same using first [of K "fst e"] K k by simp
  qed
  have "distinct (map (\<lambda>e. set (fst e)) tsdm)" using part by (simp add: partitioned_def)
  from buildNewGroupedFieldSets_result [OF keys_distinct inner1 this entries, of "[]"]
  obtain details where "buildNewGroupedFieldSets tsdm tbk fbt1 [] = Inr details"
    "list_all2 sameGroups tsdm details" by auto
  with base res base_keys show ?thesis
    by (simp add: buildGroupedFieldSets_def)
qed

section \<open>Invariants of the collector\<close>

lemma collectFieldsImpl_invariant:
  assumes rf: "\<And>key target sel a. I a \<Longrightarrow> I (recordField key target sel a)"
    and nd: "\<And>d pt a. I a \<Longrightarrow> I (snd (newDeferUsage d pt a))"
    and vf: "\<And>a n. I a \<Longrightarrow> I (a\<lparr>visitedFragmentNames := set_add (visitedFragmentNames a) n\<rparr>)"
  shows "collectFieldsImpl fuel gdv ctx sels parentTarget newTarget acc = Some (Inr acc') \<Longrightarrow>
         I acc \<Longrightarrow> I acc'"
proof (induction fuel gdv ctx sels parentTarget newTarget acc arbitrary: acc'
    rule: collectFieldsImpl.induct)
  case (1 fuel gdv ctx parentTarget newTarget acc)
  then show ?case by simp
next
  case (2 fuel gdv ctx l al nm dirs sub rest parentTarget newTarget acc)
  show ?case
  proof (cases "shouldIncludeNode gdv (ctxVariableValues ctx) dirs")
    case False
    with "2.prems" "2.IH"(1) show ?thesis by simp
  next
    case True
    with "2.prems" "2.IH"(2) [OF _ refl refl] rf show ?thesis by (simp add: Let_def)
  qed
next
  case (3 fuel gdv ctx tc dirs sels rest parentTarget newTarget acc)
  show ?case
  proof (cases "\<not> shouldIncludeNode gdv (ctxVariableValues ctx) dirs \<or>
       \<not> doesFragmentConditionMatch (ctxSchema ctx) tc (runtimeType ctx)")
    case True
    with "3.prems" "3.IH"(1) show ?thesis by simp
  next
    case False
    with "3.prems"(1) obtain b where
      gd: "getDeferValues gdv (ctxOperation ctx) (ctxVariableValues ctx) dirs = Inr b"
      by (cases "getDeferValues gdv (ctxOperation ctx) (ctxVariableValues ctx) dirs") auto
    obtain x y where xy: "(x, y) = (case b of None \<Rightarrow> (newTarget, acc)
          | Some d \<Rightarrow> newDeferUsage d parentTarget acc)"
      by (metis surj_pair)
    have Iy: "I y"
    proof (cases b)
      case None
      with xy "3.prems"(2) show ?thesis by simp
    next
      case (Some d)
      with xy have "y = snd (newDeferUsage d parentTarget acc)" by (metis snd_conv option.simps(5))
      with nd "3.prems"(2) show ?thesis by simp
    qed
    from "3.prems"(1) False gd xy [symmetric] obtain acc2 where
      inner: "collectFieldsImpl fuel gdv ctx sels parentTarget x y = Some (Inr acc2)"
      and outer: "collectFieldsImpl fuel gdv ctx rest parentTarget newTarget acc2 = Some (Inr acc')"
      by (auto split: option.splits sum.splits)
    from "3.IH"(2) [OF False gd xy inner Iy] have "I acc2" .
    from "3.IH"(3) [OF False gd xy inner refl outer this] show ?thesis .
  qed
next
  case (4 fuel gdv ctx fragName dirs rest parentTarget newTarget acc)
  show ?case
  proof (cases "shouldIncludeNode gdv (ctxVariableValues ctx) dirs")
    case False
    with "4.prems" "4.IH"(1) show ?thesis by simp
  next
    case incl: True
    with "4.prems"(1) obtain b where
      gd: "getDeferValues gdv (ctxOperation ctx) (ctxVariableValues ctx) dirs = Inr b"
      by (cases "getDeferValues gdv (ctxOperation ctx) (ctxVariableValues ctx) dirs") auto
    have incl': "\<not> \<not> shouldIncludeNode gdv (ctxVariableValues ctx) dirs" using incl by simp
    show ?thesis
    proof (cases "fragName \<in> set (visitedFragmentNames acc) \<and> b = None")
      case True
      with "4.prems" incl gd "4.IH"(2) [OF incl' gd True] show ?thesis by simp
    next
      case nv: False
      show ?thesis
      proof (cases "fragments ctx fragName")
        case None
        with "4.prems" incl gd nv "4.IH"(3) [OF incl' gd nv None] show ?thesis by simp
      next
        case (Some fragment)
        show ?thesis
        proof (cases "doesFragmentConditionMatch (ctxSchema ctx) (typeCondition fragment)
                           (runtimeType ctx)")
          case False
          with "4.prems" incl gd nv Some "4.IH"(4) [OF incl' gd nv Some False]
          show ?thesis by simp
        next
          case True
          then have m': "\<not> \<not> doesFragmentConditionMatch (ctxSchema ctx) (typeCondition fragment)
                           (runtimeType ctx)" by simp
          obtain x y where xy: "(x, y) = (case b of
                None \<Rightarrow> (newTarget, acc\<lparr>visitedFragmentNames :=
                                        set_add (visitedFragmentNames acc) fragName\<rparr>)
              | Some d \<Rightarrow> newDeferUsage d parentTarget acc)"
            by (metis surj_pair)
          have Iy: "I y"
          proof (cases b)
            case None
            with xy "4.prems"(2) vf show ?thesis by simp
          next
            case (Some d)
            with xy have "y = snd (newDeferUsage d parentTarget acc)"
              by (metis snd_conv option.simps(5))
            with nd "4.prems"(2) show ?thesis by simp
          qed
          from "4.prems"(1) incl gd nv Some True xy [symmetric] obtain fuel' acc2 where
            fuel: "fuel = Suc fuel'"
            and inner: "collectFieldsImpl fuel' gdv ctx (selectionSet fragment) parentTarget x y
                          = Some (Inr acc2)"
            and outer: "collectFieldsImpl fuel gdv ctx rest parentTarget newTarget acc2
                          = Some (Inr acc')"
            by (auto split: option.splits sum.splits nat.splits)
          from "4.IH"(5) [OF incl' gd nv Some m' xy fuel inner Iy] have "I acc2" .
          from "4.IH"(6) [OF incl' gd nv Some m' xy fuel inner refl outer this]
          show ?thesis .
        qed
      qed
    qed
  qed
qed

lemma accumulator_add_get:
  "map_get (accumulator_add m key item) K =
     (if K = key then Some ((case map_get m key of None \<Rightarrow> [] | Some g \<Rightarrow> g) @ [item])
      else map_get m K)"
  by (auto simp: accumulator_add_def map_get_def map_set_def update_conv' split: option.splits)

lemma accumulator_add_distinct:
  "distinct (map fst m) \<Longrightarrow> distinct (map fst (accumulator_add m key item))"
  by (auto simp: accumulator_add_def map_set_def distinct_update split: option.splits)

lemma recordField_targetsByKey:
  "map_get (targetsByKey (recordField key target sel acc)) K =
     (if K = key
      then Some (set_add (case map_get (targetsByKey acc) key of None \<Rightarrow> [] | Some ts \<Rightarrow> ts) target)
      else map_get (targetsByKey acc) K)"
  by (simp add: recordField_def Let_def map_get_def map_set_def update_conv')

lemma recordField_lookupNodes:
  "lookupNodes (fieldsByTarget (recordField key target sel acc)) T K =
     (if T = target \<and> K = key
      then Some (nodesFor (fieldsByTarget acc) target key @ [sel])
      else lookupNodes (fieldsByTarget acc) T K)"
proof -
  let ?tf = "case map_get (fieldsByTarget acc) target of None \<Rightarrow> [] | Some fs \<Rightarrow> fs"
  have fbt: "map_get (fieldsByTarget (recordField key target sel acc)) T =
      (if T = target then Some (accumulator_add ?tf key sel) else map_get (fieldsByTarget acc) T)"
    by (simp add: recordField_def Let_def map_get_def map_set_def update_conv')
  have tf: "map_get ?tf K' = lookupNodes (fieldsByTarget acc) target K'" for K'
    by (simp add: lookupNodes_def map_get_def split: option.splits)
  show ?thesis
    unfolding lookupNodes_def [of "fieldsByTarget (recordField key target sel acc)"] fbt
    by (simp add: accumulator_add_get tf nodesFor_def) (simp add: lookupNodes_def)
qed

lemma recordField_synchronized:
  assumes "synchronized acc"
  shows "synchronized (recordField key target sel acc)"
proof -
  let ?acc' = "recordField key target sel acc"
  let ?kt = "case map_get (targetsByKey acc) key of None \<Rightarrow> [] | Some ts \<Rightarrow> ts"
  let ?tf = "case map_get (fieldsByTarget acc) target of None \<Rightarrow> [] | Some fs \<Rightarrow> fs"
  from assms have dk: "distinct (map fst (targetsByKey acc))"
    and inner: "innerDistinct (fieldsByTarget acc)"
    and entries: "\<And>K ts. map_get (targetsByKey acc) K = Some ts \<Longrightarrow>
            ts \<noteq> [] \<and> distinct ts
            \<and> (\<forall>T \<in> set ts. \<exists>ns. lookupNodes (fieldsByTarget acc) T K = Some ns \<and> ns \<noteq> [])"
    unfolding synchronized_def synchronizedMaps_def by blast+
  have c1: "distinct (map fst (targetsByKey ?acc'))"
    using dk by (simp add: recordField_def Let_def map_set_def distinct_update)
  have tf_distinct: "distinct (map fst ?tf)"
    using inner by (auto simp: innerDistinct_def split: option.splits)
  have c2: "innerDistinct (fieldsByTarget ?acc')"
    unfolding innerDistinct_def
  proof (intro allI impI)
    fix T m assume "map_get (fieldsByTarget ?acc') T = Some m"
    then have "m = accumulator_add ?tf key sel \<or> map_get (fieldsByTarget acc) T = Some m"
      by (auto simp: recordField_def Let_def map_get_def map_set_def update_conv' split: if_splits)
    then show "distinct (map fst m)"
      using accumulator_add_distinct [OF tf_distinct] inner by (auto simp: innerDistinct_def)
  qed
  have kt_distinct: "distinct ?kt"
    using entries by (auto split: option.splits)
  have c3: "ts \<noteq> [] \<and> distinct ts
            \<and> (\<forall>T \<in> set ts. \<exists>ns. lookupNodes (fieldsByTarget ?acc') T K = Some ns \<and> ns \<noteq> [])"
    if get: "map_get (targetsByKey ?acc') K = Some ts" for K ts
  proof (cases "K = key")
    case True
    with get have ts: "ts = set_add ?kt target" by (simp add: recordField_targetsByKey)
    have "\<exists>ns. lookupNodes (fieldsByTarget ?acc') T K = Some ns \<and> ns \<noteq> []" if "T \<in> set ts" for T
    proof (cases "T = target")
      case True
      with \<open>K = key\<close> show ?thesis by (simp add: recordField_lookupNodes)
    next
      case False
      with that ts have "T \<in> set ?kt" by (simp add: set_set_add)
      then obtain kt where "map_get (targetsByKey acc) key = Some kt" "T \<in> set kt"
        by (cases "map_get (targetsByKey acc) key") auto
      with entries [of key kt] have "\<exists>ns. lookupNodes (fieldsByTarget acc) T key = Some ns \<and> ns \<noteq> []"
        by blast
      with False \<open>K = key\<close> show ?thesis by (simp add: recordField_lookupNodes)
    qed
    moreover have "target \<in> set ts" unfolding ts by (simp add: set_set_add)
    then have "ts \<noteq> []" by auto
    moreover have "distinct ts" unfolding ts using kt_distinct by (rule distinct_set_add)
    ultimately show ?thesis by blast
  next
    case False
    with get have "map_get (targetsByKey acc) K = Some ts" by (simp add: recordField_targetsByKey)
    from entries [OF this] False show ?thesis by (simp add: recordField_lookupNodes)
  qed
  from c1 c2 c3 show ?thesis unfolding synchronized_def synchronizedMaps_def by blast
qed

lemma synchronized_cong:
  "targetsByKey acc' = targetsByKey acc \<Longrightarrow> fieldsByTarget acc' = fieldsByTarget acc \<Longrightarrow>
   synchronized acc' = synchronized acc"
  by (simp add: synchronized_def synchronizedMaps_def)

lemma collectFieldsImpl_synchronized:
  assumes "collectFieldsImpl fuel gdv ctx sels parentTarget newTarget acc = Some (Inr acc')"
    and "synchronized acc"
  shows "synchronized acc'"
  using assms
proof (rule collectFieldsImpl_invariant [where I = synchronized, rotated 3])
  show "synchronized (recordField key target sel a)" if "synchronized a" for key target sel a
    using that by (rule recordField_synchronized)
  show "synchronized (snd (newDeferUsage d pt a))" if "synchronized a" for d pt a
    using that synchronized_cong [of "snd (newDeferUsage d pt a)" a]
    by (simp add: newDeferUsage_def Let_def)
  show "synchronized (a\<lparr>visitedFragmentNames := set_add (visitedFragmentNames a) n\<rparr>)"
    if "synchronized a" for a n
    using that by (simp add: synchronized_def synchronizedMaps_def)
qed

lemma synchronized_empty: "synchronized emptyAccumulators"
  by (simp add: synchronized_def synchronizedMaps_def emptyAccumulators_def innerDistinct_def map_get_def)

lemma synchronized_maps:
  "synchronized acc = synchronizedMaps (targetsByKey acc) (fieldsByTarget acc)"
  by (simp add: synchronized_def synchronizedMaps_def)

section \<open>The document with a masked field\<close>

lemmas collector_defs =
  recordField_def newDeferUsage_def accumulator_add_def map_get_def map_set_def
  map_delete_def set_add_def getFieldEntryKey_def shouldIncludeNode_def getDeferValues_def
  doesFragmentConditionMatch_def Let_def

lemmas builder_defs =
  buildGroupedFieldSets_def getTargetSetDetails_def targetSetDetailsStep_def
  getOrderedGroupedFieldSet_def maskingTargetList_def set_of_list_def set_add_def
  isSameSet_def NON_DEFERRED_TARGET_SET_def map_get_def map_set_def map_delete_def Let_def

lemmas sample_defs =
  sampleContext_def sampleFragments_def sampleSchema_def queryType_def noVariables_def
  literalDirectiveValues_def deferDirective_def plainField_def queryOperation_def
  emptyAccumulators_def

lemma maskedDocument_accumulators:
  assumes "\<And>d. gdv d [] (ctxVariableValues ctx) = None"
    and "gdv GraphQLSkipDirective [deferDirective] (ctxVariableValues ctx) = None"
    and "gdv GraphQLIncludeDirective [deferDirective] (ctxVariableValues ctx) = None"
    and "gdv GraphQLDeferDirective [deferDirective] (ctxVariableValues ctx) = Some args"
    and "args ''if'' \<noteq> Some (JSBool False)"
    and "operation (ctxOperation ctx) \<noteq> SUBSCRIPTION"
    and "lbl = (case args ''label'' of Some (JSString s) \<Rightarrow> Some s | _ \<Rightarrow> None)"
  shows "collectFieldsImpl fuel gdv ctx (rootSelectionSet maskedDocument)
           Undefined_target Undefined_target emptyAccumulators =
         Some (Inr \<lparr>fieldsByTarget = maskedFieldsByTarget lbl,
                    targetsByKey = maskedTargetsByKey lbl,
                    newDeferUsages = [maskedDeferUsage lbl],
                    visitedFragmentNames = [],
                    nextTargetId = Suc 0\<rparr>)"
  using assms
  by (simp add: collector_defs maskedDocument_def plainField_def maskedDeferUsage_def
      emptyAccumulators_def maskedFieldsByTarget_def maskedTargetsByKey_def)

lemma maskedDocument_collected:
  "collectFieldsImpl 0 literalDirectiveValues (sampleContext noFragments maskedDocument)
       (rootSelectionSet maskedDocument) Undefined_target Undefined_target emptyAccumulators =
     Some (Inr \<lparr>fieldsByTarget = maskedFieldsByTarget None,
                targetsByKey = maskedTargetsByKey None,
                newDeferUsages = [maskedDeferUsage None],
                visitedFragmentNames = [],
                nextTargetId = Suc 0\<rparr>)"
  by (rule maskedDocument_accumulators [where args = "\<lambda>arg. None"])
     (simp_all add: sample_defs maskedDocument_def)

lemma maskedDocument_groups:
  "buildGroupedFieldSets (maskedTargetsByKey lbl) (maskedFieldsByTarget lbl)
     NON_DEFERRED_TARGET_SET =
   Inr ([(''a'', \<lparr>groupFields = [(plainField 10 ''a'', Undefined_target)],
                  groupTargets = [Undefined_target]\<rparr>),
         (''b'', \<lparr>groupFields = [(plainField 11 ''b'', Undefined_target),
                                  (plainField 12 ''b'', maskedDeferUsage lbl)],
                  groupTargets = [Undefined_target]\<rparr>)],
        [([maskedDeferUsage lbl],
          \<lparr>detailsGroupedFieldSet =
             [(''c'', \<lparr>groupFields = [(plainField 13 ''c'', maskedDeferUsage lbl)],
                      groupTargets = [maskedDeferUsage lbl]\<rparr>)],
           detailsShouldInitiateDefer = True\<rparr>)])"
  by (simp add: builder_defs maskedDeferUsage_def maskedTargetsByKey_def
      maskedFieldsByTarget_def)

lemma maskedDocument_synchronized:
  "synchronizedMaps (maskedTargetsByKey None) (maskedFieldsByTarget None)"
  using collectFieldsImpl_synchronized [OF maskedDocument_collected synchronized_empty]
  by (simp add: synchronized_maps)

lemma list_all2_setD2:
  assumes "list_all2 R xs ys" "y \<in> set ys"
  shows "\<exists>x \<in> set xs. R x y"
proof -
  from assms(2) obtain i where i: "i < length ys" "ys ! i = y"
    by (auto simp: in_set_conv_nth)
  with assms(1) have "R (xs ! i) y" "i < length xs"
    by (auto simp: list_all2_conv_all_nth)
  moreover from this(2) have "xs ! i \<in> set xs" by simp
  ultimately show ?thesis by blast
qed

text \<open>
  C1. The masking target list of a per-key target set \<open>ts\<close> holds exactly the targets
  \<open>T\<close> of \<open>ts\<close> that are the non-deferred sentinel or have no member of their
  ancestors list in \<open>ts\<close>; the sentinel, when present, is always retained. So when
  a key of \<^verbatim>\<open>targetsByKey\<close> (a map: its keys are distinct) is collected under a defer
  usage \<open>D\<close> and under one of the ancestors of \<open>D\<close>, \<open>D\<close> is not in the masking
  list, and no entry of \<^verbatim>\<open>targetSetDetailsMap\<close> whose masking set contains \<open>D\<close>
  lists the key. On synchronized accumulators \<^verbatim>\<open>buildGroupedFieldSets\<close> then returns,
  and no entry of \<^verbatim>\<open>newGroupedFieldSetDetails\<close> whose masking set contains \<open>D\<close> has
  a group for the key.
\<close>

theorem masking_drops_covered_targets:
  "(T \<in> set (maskingTargetList ts) \<longleftrightarrow>
      T \<in> set ts \<and> (T = Undefined_target \<or> (\<forall>a \<in> set (ancestors T). a \<notin> set ts)))
   \<and> (Undefined_target \<in> set ts \<longrightarrow> Undefined_target \<in> set (maskingTargetList ts))
   \<and> (distinct (map fst tbk) \<and> getTargetSetDetails tbk P = (ptk, tsdm) \<and> (K, ts) \<in> set tbk
        \<and> D \<in> set ts \<and> D \<noteq> Undefined_target \<and> A \<in> set (ancestors D) \<and> A \<in> set ts
      \<longrightarrow> D \<notin> set (maskingTargetList ts)
          \<and> (\<forall>e \<in> set tsdm. D \<in> set (fst e) \<longrightarrow> K \<notin> set (keys (snd e)))
          \<and> (synchronizedMaps tbk fbt \<longrightarrow>
                (\<exists>gfs details. buildGroupedFieldSets tbk fbt P = Inr (gfs, details)
                   \<and> (\<forall>out \<in> set details. D \<in> set (fst out) \<longrightarrow>
                          K \<notin> fst ` set (detailsGroupedFieldSet (snd out))))))"
proof (intro conjI impI)
  show "T \<in> set (maskingTargetList ts) \<longleftrightarrow>
      T \<in> set ts \<and> (T = Undefined_target \<or> (\<forall>a \<in> set (ancestors T). a \<notin> set ts))"
    by (rule maskingTargetList_member)
next
  assume "Undefined_target \<in> set ts"
  then show "Undefined_target \<in> set (maskingTargetList ts)"
    by (simp add: maskingTargetList_member)
next
  assume a: "distinct (map fst tbk) \<and> getTargetSetDetails tbk P = (ptk, tsdm) \<and> (K, ts) \<in> set tbk
        \<and> D \<in> set ts \<and> D \<noteq> Undefined_target \<and> A \<in> set (ancestors D) \<and> A \<in> set ts"
  then show dropped: "D \<notin> set (maskingTargetList ts)"
    by (auto simp: maskingTargetList_member)
  from a have part: "partitioned P tbk (ptk, tsdm)"
    using partitioned_getTargetSetDetails [of tbk P] by simp
  show listed: "\<forall>e \<in> set tsdm. D \<in> set (fst e) \<longrightarrow> K \<notin> set (keys (snd e))"
  proof (intro ballI impI notI)
    fix e assume e: "e \<in> set tsdm" "D \<in> set (fst e)" "K \<in> set (keys (snd e))"
    from part e(1) have "keys (snd e) = keysMaskedBy (set (fst e)) tbk"
      by (simp add: partitioned_def)
    with e(3) a have "set (maskingTargetList ts) = set (fst e)"
      using keysMaskedBy_member [of tbk K ts "set (fst e)"] by simp
    with e(2) dropped show False by simp
  qed
  assume sync: "synchronizedMaps tbk fbt"
  from a have res: "getTargetSetDetails tbk P = (ptk, tsdm)" by simp
  from buildGroupedFieldSets_result [OF sync res] obtain gfs details where
    built: "buildGroupedFieldSets tbk fbt P = Inr (gfs, details)"
    and rel: "list_all2 sameGroups tsdm details"
    by blast
  have "K \<notin> fst ` set (detailsGroupedFieldSet (snd out))"
    if out: "out \<in> set details" "D \<in> set (fst out)" for out
  proof -
    from list_all2_setD2 [OF rel out(1)] obtain e where e: "e \<in> set tsdm" "sameGroups e out"
      by blast
    then have "fst out = fst e"
        "fst ` set (detailsGroupedFieldSet (snd out)) = set (keys (snd e))"
      by (simp_all add: sameGroups_def)
    with listed e(1) out(2) show ?thesis by simp
  qed
  with built
  show "\<exists>gfs details. buildGroupedFieldSets tbk fbt P = Inr (gfs, details)
                   \<and> (\<forall>out \<in> set details. D \<in> set (fst out) \<longrightarrow>
                          K \<notin> fst ` set (detailsGroupedFieldSet (snd out)))"
    by blast
qed

theorem masking_drops_covered_targets_witness:
  "distinct (map fst (maskedTargetsByKey None))
   \<and> getTargetSetDetails (maskedTargetsByKey None) NON_DEFERRED_TARGET_SET =
       ([''a'', ''b''],
        [([maskedDeferUsage None], \<lparr>keys = [''c''], shouldInitiateDefer = True\<rparr>)])
   \<and> (''b'', [Undefined_target, maskedDeferUsage None]) \<in> set (maskedTargetsByKey None)
   \<and> Undefined_target \<in> set (ancestors (maskedDeferUsage None))
   \<and> maskedDeferUsage None \<notin> set (maskingTargetList [Undefined_target, maskedDeferUsage None])
   \<and> Undefined_target \<in> set (maskingTargetList [Undefined_target, maskedDeferUsage None])
   \<and> ''b'' \<notin> set (keys \<lparr>keys = [''c''], shouldInitiateDefer = True\<rparr>)
   \<and> synchronizedMaps (maskedTargetsByKey None) (maskedFieldsByTarget None)
   \<and> (\<exists>gfs details.
         buildGroupedFieldSets (maskedTargetsByKey None) (maskedFieldsByTarget None)
           NON_DEFERRED_TARGET_SET = Inr (gfs, details)
         \<and> map (\<lambda>out. map fst (detailsGroupedFieldSet (snd out))) details = [[''c'']])"
  using masking_drops_covered_targets
    [of Undefined_target "[Undefined_target, maskedDeferUsage None]"
        "maskedTargetsByKey None" NON_DEFERRED_TARGET_SET "[''a'', ''b'']"
        "[([maskedDeferUsage None], \<lparr>keys = [''c''], shouldInitiateDefer = True\<rparr>)]"
        "''b''" "maskedDeferUsage None" Undefined_target "maskedFieldsByTarget None"]
    maskedTargetsByKey_details [of None] maskedDocument_synchronized
    maskedDocument_groups [of None]
  by (simp add: maskedTargetsByKey_def maskedDeferUsage_def)

text \<open>
  C2. Let \<^verbatim>\<open>getTargetSetDetails\<close> return \<open>(ptk, tsdm)\<close> for a map
  \<^verbatim>\<open>targetsByKey\<close> (distinct keys) and the parent target set \<open>P\<close>. A key is in
  \<open>ptk\<close>, the keys of the base grouped field set, exactly when its masking set is the
  same set as \<open>P\<close> (by membership). A key is listed in an entry of \<open>tsdm\<close> exactly
  when the entry's masking set is the same set as the key's; no entry has the parent set;
  a key whose masking set is not the parent set has such an entry; two entries never have
  the same set, so keys with membership-equal masking sets share one entry; and the flag
  \<^verbatim>\<open>shouldInitiateDefer\<close> of an entry holds exactly when some target of its masking set
  is not a member of \<open>P\<close>. On synchronized accumulators \<^verbatim>\<open>buildGroupedFieldSets\<close>
  returns the partition as it is: the keys of the base grouped field set are those of
  \<open>ptk\<close>, and \<^verbatim>\<open>newGroupedFieldSetDetails\<close> has, entry by entry, the masking set, the
  keys and the flag of \<open>tsdm\<close>.
\<close>

theorem getTargetSetDetails_partition:
  assumes keys_distinct: "distinct (map fst tbk)"
    and result: "getTargetSetDetails tbk P = (ptk, tsdm)"
    and entry: "(K, ts) \<in> set tbk"
  shows "(K \<in> set ptk \<longleftrightarrow> isSameSet (set_of_list (maskingTargetList ts)) P)
   \<and> (\<forall>e \<in> set tsdm.
         (K \<in> set (keys (snd e)) \<longleftrightarrow> isSameSet (fst e) (set_of_list (maskingTargetList ts)))
         \<and> \<not> isSameSet (fst e) P
         \<and> (shouldInitiateDefer (snd e) \<longleftrightarrow> (\<exists>t \<in> set (fst e). t \<notin> set P)))
   \<and> (\<not> isSameSet (set_of_list (maskingTargetList ts)) P \<longrightarrow>
         (\<exists>e \<in> set tsdm. isSameSet (fst e) (set_of_list (maskingTargetList ts))))
   \<and> (\<forall>i < length tsdm. \<forall>j < length tsdm.
         isSameSet (fst (tsdm ! i)) (fst (tsdm ! j)) \<longrightarrow> i = j)
   \<and> (synchronizedMaps tbk fbt \<longrightarrow>
         (\<exists>gfs details. buildGroupedFieldSets tbk fbt P = Inr (gfs, details)
            \<and> fst ` set gfs = set ptk
            \<and> length details = length tsdm
            \<and> (\<forall>i < length tsdm.
                  fst (details ! i) = fst (tsdm ! i)
                  \<and> fst ` set (detailsGroupedFieldSet (snd (details ! i)))
                      = set (keys (snd (tsdm ! i)))
                  \<and> detailsShouldInitiateDefer (snd (details ! i))
                      = shouldInitiateDefer (snd (tsdm ! i)))))"
proof -
  have part: "partitioned P tbk (ptk, tsdm)"
    using partitioned_getTargetSetDetails [OF keys_distinct, of P] result by simp
  have member: "K \<in> set (keysMaskedBy S tbk) \<longleftrightarrow> set (maskingTargetList ts) = S" for S
    by (rule keysMaskedBy_member [OF keys_distinct entry])
  have c1: "K \<in> set ptk \<longleftrightarrow> isSameSet (set_of_list (maskingTargetList ts)) P"
    using part member by (simp add: partitioned_def isSameSet_iff set_set_of_list)
  have c2: "(K \<in> set (keys (snd e)) \<longleftrightarrow> isSameSet (fst e) (set_of_list (maskingTargetList ts)))
         \<and> \<not> isSameSet (fst e) P
         \<and> (shouldInitiateDefer (snd e) \<longleftrightarrow> (\<exists>t \<in> set (fst e). t \<notin> set P))"
    if "e \<in> set tsdm" for e
  proof -
    from part that have "set (fst e) \<noteq> set P" "keys (snd e) = keysMaskedBy (set (fst e)) tbk"
        "shouldInitiateDefer (snd e) = (\<exists>t \<in> set (fst e). t \<notin> set P)"
      by (simp_all add: partitioned_def)
    then show ?thesis
      using member [of "set (fst e)"] by (auto simp: isSameSet_iff set_set_of_list)
  qed
  have c3: "\<exists>e \<in> set tsdm. isSameSet (fst e) (set_of_list (maskingTargetList ts))"
    if "\<not> isSameSet (set_of_list (maskingTargetList ts)) P"
  proof -
    from that have "maskOf (K, ts) \<noteq> set P"
      by (simp add: isSameSet_iff set_set_of_list maskOf_def)
    with part entry obtain e where "e \<in> set tsdm" "set (fst e) = maskOf (K, ts)"
      unfolding partitioned_def snd_conv by blast
    then show ?thesis
      by (auto simp: isSameSet_iff set_set_of_list maskOf_def)
  qed
  have dist: "distinct (map (\<lambda>e. set (fst e)) tsdm)"
    using part by (simp add: partitioned_def)
  have c4: "i = j" if "i < length tsdm" "j < length tsdm"
      "isSameSet (fst (tsdm ! i)) (fst (tsdm ! j))" for i j
    using dist that by (auto simp: isSameSet_iff distinct_conv_nth)
  have c5: "\<exists>gfs details. buildGroupedFieldSets tbk fbt P = Inr (gfs, details)
            \<and> fst ` set gfs = set ptk
            \<and> length details = length tsdm
            \<and> (\<forall>i < length tsdm.
                  fst (details ! i) = fst (tsdm ! i)
                  \<and> fst ` set (detailsGroupedFieldSet (snd (details ! i)))
                      = set (keys (snd (tsdm ! i)))
                  \<and> detailsShouldInitiateDefer (snd (details ! i))
                      = shouldInitiateDefer (snd (tsdm ! i)))"
    if sync: "synchronizedMaps tbk fbt"
  proof -
    from buildGroupedFieldSets_result [OF sync result] obtain gfs details where
      built: "buildGroupedFieldSets tbk fbt P = Inr (gfs, details)"
      and base: "fst ` set gfs = set ptk"
      and rel: "list_all2 sameGroups tsdm details"
      by blast
    from rel have len: "length details = length tsdm"
      and nth: "\<And>i. i < length tsdm \<Longrightarrow> sameGroups (tsdm ! i) (details ! i)"
      by (simp_all add: list_all2_conv_all_nth)
    have "fst (details ! i) = fst (tsdm ! i)
                  \<and> fst ` set (detailsGroupedFieldSet (snd (details ! i)))
                      = set (keys (snd (tsdm ! i)))
                  \<and> detailsShouldInitiateDefer (snd (details ! i))
                      = shouldInitiateDefer (snd (tsdm ! i))"
      if "i < length tsdm" for i
      using nth [OF that] by (simp add: sameGroups_def)
    with built base len show ?thesis by blast
  qed
  show ?thesis
  proof (intro conjI)
    show "K \<in> set ptk \<longleftrightarrow> isSameSet (set_of_list (maskingTargetList ts)) P"
      by (rule c1)
    show "\<forall>e \<in> set tsdm.
         (K \<in> set (keys (snd e)) \<longleftrightarrow> isSameSet (fst e) (set_of_list (maskingTargetList ts)))
         \<and> \<not> isSameSet (fst e) P
         \<and> (shouldInitiateDefer (snd e) \<longleftrightarrow> (\<exists>t \<in> set (fst e). t \<notin> set P))"
      using c2 by blast
    show "\<not> isSameSet (set_of_list (maskingTargetList ts)) P \<longrightarrow>
         (\<exists>e \<in> set tsdm. isSameSet (fst e) (set_of_list (maskingTargetList ts)))"
      using c3 by blast
    show "\<forall>i < length tsdm. \<forall>j < length tsdm.
         isSameSet (fst (tsdm ! i)) (fst (tsdm ! j)) \<longrightarrow> i = j"
      using c4 by blast
    show "synchronizedMaps tbk fbt \<longrightarrow>
         (\<exists>gfs details. buildGroupedFieldSets tbk fbt P = Inr (gfs, details)
            \<and> fst ` set gfs = set ptk
            \<and> length details = length tsdm
            \<and> (\<forall>i < length tsdm.
                  fst (details ! i) = fst (tsdm ! i)
                  \<and> fst ` set (detailsGroupedFieldSet (snd (details ! i)))
                      = set (keys (snd (tsdm ! i)))
                  \<and> detailsShouldInitiateDefer (snd (details ! i))
                      = shouldInitiateDefer (snd (tsdm ! i))))"
      using c5 by (rule impI)
  qed
qed

theorem getTargetSetDetails_partition_witness:
  "distinct (map fst (maskedTargetsByKey None))
   \<and> getTargetSetDetails (maskedTargetsByKey None) NON_DEFERRED_TARGET_SET =
       ([''a'', ''b''],
        [([maskedDeferUsage None], \<lparr>keys = [''c''], shouldInitiateDefer = True\<rparr>)])
   \<and> (''c'', [maskedDeferUsage None]) \<in> set (maskedTargetsByKey None)
   \<and> ''c'' \<notin> set [''a'', ''b'']
   \<and> isSameSet (set_of_list (maskingTargetList [maskedDeferUsage None])) NON_DEFERRED_TARGET_SET = False
   \<and> isSameSet [maskedDeferUsage None] (set_of_list (maskingTargetList [maskedDeferUsage None]))
   \<and> maskedDeferUsage None \<notin> set NON_DEFERRED_TARGET_SET
   \<and> synchronizedMaps (maskedTargetsByKey None) (maskedFieldsByTarget None)
   \<and> (\<exists>gfs details.
         buildGroupedFieldSets (maskedTargetsByKey None) (maskedFieldsByTarget None)
           NON_DEFERRED_TARGET_SET = Inr (gfs, details)
         \<and> map fst gfs = [''a'', ''b'']
         \<and> map (\<lambda>out. map fst (detailsGroupedFieldSet (snd out))) details = [[''c'']]
         \<and> map (\<lambda>out. detailsShouldInitiateDefer (snd out)) details = [True])"
  using getTargetSetDetails_partition
    [of "maskedTargetsByKey None" NON_DEFERRED_TARGET_SET "[''a'', ''b'']"
        "[([maskedDeferUsage None], \<lparr>keys = [''c''], shouldInitiateDefer = True\<rparr>)]"
        "''c''" "[maskedDeferUsage None]" "maskedFieldsByTarget None"]
    maskedTargetsByKey_details [of None] maskedDocument_synchronized
    maskedDocument_groups [of None]
  by (simp add: maskedTargetsByKey_def maskedDeferUsage_def isSameSet_def set_of_list_def
      set_add_def maskingTargetList_def NON_DEFERRED_TARGET_SET_def)



lemma innerDistinct_masked: "innerDistinct (maskedFieldsByTarget lbl)"
  by (auto simp: innerDistinct_def maskedFieldsByTarget_def map_get_def maskedDeferUsage_def
      split: if_splits)

lemma masked_base_group:
  "getOrderedGroupedFieldSet [''a'', ''b''] NON_DEFERRED_TARGET_SET
     (maskedTargetsByKey lbl) (maskedFieldsByTarget lbl) =
   Inr ([(''a'', \<lparr>groupFields = [(plainField 10 ''a'', Undefined_target)],
                  groupTargets = NON_DEFERRED_TARGET_SET\<rparr>),
         (''b'', \<lparr>groupFields = [(plainField 11 ''b'', Undefined_target),
                                  (plainField 12 ''b'', maskedDeferUsage lbl)],
                  groupTargets = NON_DEFERRED_TARGET_SET\<rparr>)],
        [(Undefined_target, []),
         (maskedDeferUsage lbl, [(''c'', [plainField 13 ''c''])])])"
  by (simp add: builder_defs maskedDeferUsage_def maskedTargetsByKey_def maskedFieldsByTarget_def)

text \<open>
  C4, as the code has it. When \<^verbatim>\<open>getOrderedGroupedFieldSet\<close> returns, every key of the
  group it built is one of the keys it was given, the group's targets are the masking
  targets it was given, and the group's field list is the concatenation, over all the
  targets of the key's per-key target set in the order of that set, of the nodes
  accumulated for the key under each target, each node paired with that target. The loop
  runs over \<^verbatim>\<open>targetsByKey.get(key)\<close>, not over the masking set: the nodes of a masked
  target are part of the group. (The inner maps of the field accumulator have distinct
  keys, as a \<^verbatim>\<open>Map\<close> has.)
\<close>

theorem group_fields_over_all_targets_of_key:
  assumes "getOrderedGroupedFieldSet ks M tbk fbt = Inr (gfs, fbt')"
    and "innerDistinct fbt"
    and "map_get gfs K = Some g"
  shows "K \<in> set ks \<and> groupTargets g = M
     \<and> (\<exists>ts. map_get tbk K = Some ts
           \<and> (\<forall>T \<in> set ts. \<exists>m ns. map_get fbt T = Some m \<and> map_get m K = Some ns)
           \<and> groupFields g =
               concat (map (\<lambda>T. map (\<lambda>node. (node, T)) (nodesFor fbt T K)) ts))"
proof -
  from getOrderedGroupedFieldSet_effect(1) [OF assms(1,2)] obtain firstFields where
    "map_get fbt (case M of [] \<Rightarrow> Undefined_target | t # _ \<Rightarrow> t) = Some firstFields" and
    gfs: "gfs = map (\<lambda>K. (K, \<lparr>groupFields = fieldsOfKey tbk fbt K, groupTargets = M\<rparr>))
                     (filter (\<lambda>K. K \<in> set ks) (map fst firstFields))"
    by blast
  from assms(3) have "(K, g) \<in> set gfs" unfolding map_get_def by (rule map_of_SomeD)
  with gfs have K: "K \<in> set ks" and g: "g = \<lparr>groupFields = fieldsOfKey tbk fbt K, groupTargets = M\<rparr>"
    by auto
  from \<open>(K, g) \<in> set gfs\<close> have "K \<in> fst ` set gfs" by (rule rev_image_eqI) simp
  with getOrderedGroupedFieldSet_effect(5) [OF assms(1,2)] have "ready tbk fbt K" by blast
  then obtain ts where ts: "map_get tbk K = Some ts"
      "\<forall>T \<in> set ts. lookupNodes fbt T K \<noteq> None"
    unfolding ready_def by blast
  have "\<forall>T \<in> set ts. \<exists>m ns. map_get fbt T = Some m \<and> map_get m K = Some ns"
    using ts(2) by (auto simp: lookupNodes_def split: option.splits)
  with K g ts(1) show ?thesis by (auto simp: fieldsOfKey_def)
qed

theorem group_fields_over_all_targets_of_key_witness:
  "getOrderedGroupedFieldSet [''a'', ''b''] NON_DEFERRED_TARGET_SET
     (maskedTargetsByKey None) (maskedFieldsByTarget None) =
   Inr ([(''a'', \<lparr>groupFields = [(plainField 10 ''a'', Undefined_target)],
                  groupTargets = NON_DEFERRED_TARGET_SET\<rparr>),
         (''b'', \<lparr>groupFields = [(plainField 11 ''b'', Undefined_target),
                                  (plainField 12 ''b'', maskedDeferUsage None)],
                  groupTargets = NON_DEFERRED_TARGET_SET\<rparr>)],
        [(Undefined_target, []),
         (maskedDeferUsage None, [(''c'', [plainField 13 ''c''])])])
   \<and> innerDistinct (maskedFieldsByTarget None)
   \<and> map_get (maskedTargetsByKey None) ''b'' = Some [Undefined_target, maskedDeferUsage None]
   \<and> concat (map (\<lambda>T. map (\<lambda>node. (node, T)) (nodesFor (maskedFieldsByTarget None) T ''b''))
               [Undefined_target, maskedDeferUsage None]) =
       [(plainField 11 ''b'', Undefined_target), (plainField 12 ''b'', maskedDeferUsage None)]"
  using group_fields_over_all_targets_of_key
    [OF masked_base_group [of None] innerDistinct_masked [of None],
     of "''b''" "\<lparr>groupFields = [(plainField 11 ''b'', Undefined_target),
                                  (plainField 12 ''b'', maskedDeferUsage None)],
                  groupTargets = NON_DEFERRED_TARGET_SET\<rparr>"]
    masked_base_group [of None] innerDistinct_masked [of None]
  by (simp add: map_get_def maskedTargetsByKey_def)

text \<open>
  The claim C4 as stated fails on \<^verbatim>\<open>{ a b ... @defer { b c } }\<close>: the key b is collected
  under the sentinel and under the defer usage, its masking list is the sentinel alone,
  and yet the group of b holds the node that was accumulated under the defer usage: its
  field list is not the concatenation over the masking targets.
\<close>

theorem masked_target_nodes_in_group_counterexample:
  "collectFieldsImpl 0 literalDirectiveValues (sampleContext noFragments maskedDocument)
       (rootSelectionSet maskedDocument) Undefined_target Undefined_target emptyAccumulators =
     Some (Inr \<lparr>fieldsByTarget = maskedFieldsByTarget None,
                targetsByKey = maskedTargetsByKey None,
                newDeferUsages = [maskedDeferUsage None],
                visitedFragmentNames = [],
                nextTargetId = Suc 0\<rparr>)
   \<and> map_get (maskedTargetsByKey None) ''b'' = Some [Undefined_target, maskedDeferUsage None]
   \<and> maskingTargetList [Undefined_target, maskedDeferUsage None] = [Undefined_target]
   \<and> maskedDeferUsage None \<notin> set (maskingTargetList [Undefined_target, maskedDeferUsage None])
   \<and> getOrderedGroupedFieldSet [''a'', ''b''] NON_DEFERRED_TARGET_SET
        (maskedTargetsByKey None) (maskedFieldsByTarget None) =
      Inr ([(''a'', \<lparr>groupFields = [(plainField 10 ''a'', Undefined_target)],
                     groupTargets = NON_DEFERRED_TARGET_SET\<rparr>),
            (''b'', \<lparr>groupFields = [(plainField 11 ''b'', Undefined_target),
                                     (plainField 12 ''b'', maskedDeferUsage None)],
                     groupTargets = NON_DEFERRED_TARGET_SET\<rparr>)],
           [(Undefined_target, []),
            (maskedDeferUsage None, [(''c'', [plainField 13 ''c''])])])
   \<and> nodesFor (maskedFieldsByTarget None) (maskedDeferUsage None) ''b'' = [plainField 12 ''b'']
   \<and> fieldsOfMaskingTargets (maskedTargetsByKey None) (maskedFieldsByTarget None) ''b'' =
       [(plainField 11 ''b'', Undefined_target)]
   \<and> [(plainField 11 ''b'', Undefined_target), (plainField 12 ''b'', maskedDeferUsage None)] \<noteq>
       fieldsOfMaskingTargets (maskedTargetsByKey None) (maskedFieldsByTarget None) ''b''"
proof (intro conjI)
  show "collectFieldsImpl 0 literalDirectiveValues (sampleContext noFragments maskedDocument)
       (rootSelectionSet maskedDocument) Undefined_target Undefined_target emptyAccumulators =
     Some (Inr \<lparr>fieldsByTarget = maskedFieldsByTarget None,
                targetsByKey = maskedTargetsByKey None,
                newDeferUsages = [maskedDeferUsage None],
                visitedFragmentNames = [],
                nextTargetId = Suc 0\<rparr>)"
    by (rule maskedDocument_collected)
  show "map_get (maskedTargetsByKey None) ''b'' = Some [Undefined_target, maskedDeferUsage None]"
    by (simp add: map_get_def maskedTargetsByKey_def)
  show "maskingTargetList [Undefined_target, maskedDeferUsage None] = [Undefined_target]"
    by (simp add: maskingTargetList_def maskedDeferUsage_def)
  then show "maskedDeferUsage None \<notin> set (maskingTargetList [Undefined_target, maskedDeferUsage None])"
    by (simp add: maskedDeferUsage_def)
  show "getOrderedGroupedFieldSet [''a'', ''b''] NON_DEFERRED_TARGET_SET
        (maskedTargetsByKey None) (maskedFieldsByTarget None) =
      Inr ([(''a'', \<lparr>groupFields = [(plainField 10 ''a'', Undefined_target)],
                     groupTargets = NON_DEFERRED_TARGET_SET\<rparr>),
            (''b'', \<lparr>groupFields = [(plainField 11 ''b'', Undefined_target),
                                     (plainField 12 ''b'', maskedDeferUsage None)],
                     groupTargets = NON_DEFERRED_TARGET_SET\<rparr>)],
           [(Undefined_target, []),
            (maskedDeferUsage None, [(''c'', [plainField 13 ''c''])])])"
    by (rule masked_base_group)
  show "nodesFor (maskedFieldsByTarget None) (maskedDeferUsage None) ''b'' = [plainField 12 ''b'']"
    by (simp add: nodesFor_def lookupNodes_def map_get_def maskedFieldsByTarget_def
        maskedDeferUsage_def)
  show claimed: "fieldsOfMaskingTargets (maskedTargetsByKey None) (maskedFieldsByTarget None) ''b'' =
       [(plainField 11 ''b'', Undefined_target)]"
    by (simp add: fieldsOfMaskingTargets_def maskingTargetList_def nodesFor_def lookupNodes_def
        map_get_def maskedFieldsByTarget_def maskedTargetsByKey_def maskedDeferUsage_def)
  show "[(plainField 11 ''b'', Undefined_target), (plainField 12 ''b'', maskedDeferUsage None)] \<noteq>
       fieldsOfMaskingTargets (maskedTargetsByKey None) (maskedFieldsByTarget None) ''b''"
    unfolding claimed by simp
qed

text \<open>
  C10. Collection keeps the two accumulators synchronized: started from synchronized
  accumulators (the empty ones are), a run of \<^verbatim>\<open>collectFieldsImpl\<close> that returns leaves
  them synchronized, so every target that a key lists in \<^verbatim>\<open>targetsByKey\<close> has an entry
  in \<^verbatim>\<open>fieldsByTarget\<close> whose map holds a non-empty node list for that key. Building
  the groups from them, for any parent target set, then never throws: in the model a
  lookup that finds no entry is the only way \<^verbatim>\<open>buildGroupedFieldSets\<close> fails.
\<close>

theorem collection_keeps_accumulators_synchronized:
  assumes "synchronized acc0"
    and "collectFieldsImpl fuel gdv ctx sels parentTarget newTarget acc0 = Some (Inr acc)"
  shows "synchronized emptyAccumulators
     \<and> synchronized acc
     \<and> (\<forall>x \<in> set (targetsByKey acc). \<forall>T \<in> set (snd x).
           \<exists>m ns. map_get (fieldsByTarget acc) T = Some m \<and> map_get m (fst x) = Some ns
                  \<and> ns \<noteq> [])
     \<and> (\<exists>r. buildGroupedFieldSets (targetsByKey acc) (fieldsByTarget acc) parentTargets = Inr r)"
proof -
  have sync: "synchronized acc"
    using assms(2,1) by (rule collectFieldsImpl_synchronized)
  then have maps: "synchronizedMaps (targetsByKey acc) (fieldsByTarget acc)"
    by (simp add: synchronized_def)
  have c3: "\<forall>x \<in> set (targetsByKey acc). \<forall>T \<in> set (snd x).
           \<exists>m ns. map_get (fieldsByTarget acc) T = Some m \<and> map_get m (fst x) = Some ns
                  \<and> ns \<noteq> []"
  proof (intro ballI)
    fix x T assume "x \<in> set (targetsByKey acc)" "T \<in> set (snd x)"
    with synchronizedMaps_entry [OF maps] obtain ns
      where "lookupNodes (fieldsByTarget acc) T (fst x) = Some ns" "ns \<noteq> []"
      by blast
    then show "\<exists>m ns. map_get (fieldsByTarget acc) T = Some m \<and> map_get m (fst x) = Some ns
                  \<and> ns \<noteq> []"
      by (auto simp: lookupNodes_def split: option.splits)
  qed
  obtain ptk tsdm where "getTargetSetDetails (targetsByKey acc) parentTargets = (ptk, tsdm)"
    by (cases "getTargetSetDetails (targetsByKey acc) parentTargets")
  from buildGroupedFieldSets_result [OF maps this]
  have c4: "\<exists>r. buildGroupedFieldSets (targetsByKey acc) (fieldsByTarget acc) parentTargets = Inr r"
    by blast
  from synchronized_empty sync c3 c4 show ?thesis by blast
qed

theorem collection_keeps_accumulators_synchronized_witness:
  "synchronized emptyAccumulators
   \<and> collectFieldsImpl 0 literalDirectiveValues (sampleContext noFragments maskedDocument)
       (rootSelectionSet maskedDocument) Undefined_target Undefined_target emptyAccumulators =
     Some (Inr \<lparr>fieldsByTarget = maskedFieldsByTarget None,
                targetsByKey = maskedTargetsByKey None,
                newDeferUsages = [maskedDeferUsage None],
                visitedFragmentNames = [],
                nextTargetId = Suc 0\<rparr>)
   \<and> synchronized \<lparr>fieldsByTarget = maskedFieldsByTarget None,
                targetsByKey = maskedTargetsByKey None,
                newDeferUsages = [maskedDeferUsage None],
                visitedFragmentNames = [],
                nextTargetId = Suc 0\<rparr>
   \<and> (\<exists>r. buildGroupedFieldSets (maskedTargetsByKey None) (maskedFieldsByTarget None)
             NON_DEFERRED_TARGET_SET = Inr r)"
  using collection_keeps_accumulators_synchronized
    [OF synchronized_empty maskedDocument_collected, of NON_DEFERRED_TARGET_SET]
    maskedDocument_collected
  by simp

section \<open>Fragment spreads\<close>

lemma collectFieldsImpl_append:
  "collectFieldsImpl fuel gdv ctx (xs @ ys) parentTarget newTarget acc =
     (case collectFieldsImpl fuel gdv ctx xs parentTarget newTarget acc of
        Some (Inr acc1) \<Rightarrow> collectFieldsImpl fuel gdv ctx ys parentTarget newTarget acc1
      | r \<Rightarrow> r)"
proof (induction xs arbitrary: acc)
  case Nil
  then show ?case by simp
next
  case (Cons x xs)
  show ?case
  proof (cases x)
    case (Field l al nm dirs sub)
    then show ?thesis using Cons by (simp add: Let_def)
  next
    case (InlineFragment tc dirs sels)
    then show ?thesis using Cons
      by (simp split: sum.splits option.splits prod.splits)
  next
    case (FragmentSpread fragName dirs)
    then show ?thesis using Cons
      by (cases fuel) (simp_all split: sum.splits option.splits prod.splits)
  qed
qed

lemma collectFieldsImpl_visited_mono:
  assumes "collectFieldsImpl fuel gdv ctx sels parentTarget newTarget acc = Some (Inr acc')"
    and "F \<in> set (visitedFragmentNames acc)"
  shows "F \<in> set (visitedFragmentNames acc')"
  using assms
proof (rule collectFieldsImpl_invariant [where I = "\<lambda>a. F \<in> set (visitedFragmentNames a)", rotated 3])
  show "F \<in> set (visitedFragmentNames (recordField key target sel a))"
    if "F \<in> set (visitedFragmentNames a)" for key target sel a
    using that by (simp add: recordField_def Let_def)
  show "F \<in> set (visitedFragmentNames (snd (newDeferUsage d pt a)))"
    if "F \<in> set (visitedFragmentNames a)" for d pt a
    using that by (simp add: newDeferUsage_def Let_def)
  show "F \<in> set (visitedFragmentNames
           (a\<lparr>visitedFragmentNames := set_add (visitedFragmentNames a) n\<rparr>))"
    if "F \<in> set (visitedFragmentNames a)" for a n
    using that by (simp add: set_set_add)
qed

lemma spread_skipped_when_visited:
  assumes "getDeferValues gdv (ctxOperation ctx) (ctxVariableValues ctx) dirs = Inr None"
    and "F \<in> set (visitedFragmentNames acc)"
  shows "collectFieldsImpl fuel gdv ctx (FragmentSpread F dirs # rest) parentTarget newTarget acc =
         collectFieldsImpl fuel gdv ctx rest parentTarget newTarget acc"
  using assms by simp



lemma spread_marks_visited:
  assumes incl: "shouldIncludeNode gdv (ctxVariableValues ctx) dirs"
    and nodefer: "getDeferValues gdv (ctxOperation ctx) (ctxVariableValues ctx) dirs = Inr None"
    and frag: "fragments ctx F = Some fragment"
    and match: "doesFragmentConditionMatch (ctxSchema ctx) (typeCondition fragment) (runtimeType ctx)"
    and run: "collectFieldsImpl fuel gdv ctx (FragmentSpread F dirs # rest) parentTarget newTarget acc
                = Some (Inr acc')"
  shows "F \<in> set (visitedFragmentNames acc')"
proof (cases "F \<in> set (visitedFragmentNames acc)")
  case True
  with run show ?thesis by (rule collectFieldsImpl_visited_mono)
next
  case False
  let ?y = "acc\<lparr>visitedFragmentNames := set_add (visitedFragmentNames acc) F\<rparr>"
  from run incl nodefer frag match False obtain fuel' acc2 where
    inner: "collectFieldsImpl fuel' gdv ctx (selectionSet fragment) parentTarget newTarget ?y
              = Some (Inr acc2)"
    and outer: "collectFieldsImpl fuel gdv ctx rest parentTarget newTarget acc2 = Some (Inr acc')"
    by (auto split: nat.splits option.splits sum.splits)
  have "F \<in> set (visitedFragmentNames ?y)" by (simp add: set_set_add)
  with inner have "F \<in> set (visitedFragmentNames acc2)"
    by (rule collectFieldsImpl_visited_mono)
  with outer show ?thesis by (rule collectFieldsImpl_visited_mono)
qed





lemma newDeferUsage_visited:
  "visitedFragmentNames (snd (newDeferUsage d pt acc)) = visitedFragmentNames acc"
  by (simp add: newDeferUsage_def Let_def)

lemma inline_spread_skipped_when_visited:
  assumes nodefer: "getDeferValues gdv (ctxOperation ctx) (ctxVariableValues ctx) dirs = Inr None"
    and visited: "F \<in> set (visitedFragmentNames acc)"
  shows "collectFieldsImpl fuel gdv ctx (InlineFragment tc idirs (FragmentSpread F dirs # body) # rest)
           parentTarget newTarget acc =
         collectFieldsImpl fuel gdv ctx (InlineFragment tc idirs body # rest)
           parentTarget newTarget acc"
proof (cases "getDeferValues gdv (ctxOperation ctx) (ctxVariableValues ctx) idirs")
  case (Inl e)
  then show ?thesis by simp
next
  case (Inr b)
  show ?thesis
  proof (cases b)
    case None
    with Inr nodefer visited show ?thesis by simp
  next
    case (Some d)
    obtain x y where xy: "newDeferUsage d parentTarget acc = (x, y)" by (metis surj_pair)
    then have "visitedFragmentNames y = visitedFragmentNames acc"
      using newDeferUsage_visited [of d parentTarget acc] by simp
    with visited have "F \<in> set (visitedFragmentNames y)" by simp
    with Inr Some nodefer xy show ?thesis by simp
  qed
qed

text \<open>
  C9. The visited set lives in the accumulators shared by the whole call, not per target.
  Once a run that starts with an included, non-deferred spread of a matching fragment
  \<open>F\<close> has returned, \<open>F\<close> is visited, and any later non-deferred spread of \<open>F\<close> is
  skipped for every parent target and every new-target override: collected alone it
  returns the accumulators unchanged, so nothing of \<open>F\<close> is recorded under the later
  target. In particular, within one call, a non-deferred spread of \<open>F\<close> at the head of a
  later inline fragment (deferred or not) can be removed without changing the result.
\<close>

theorem visited_fragments_shared_across_targets:
  assumes incl: "shouldIncludeNode gdv (ctxVariableValues ctx) dirs"
    and nodefer: "getDeferValues gdv (ctxOperation ctx) (ctxVariableValues ctx) dirs = Inr None"
    and nodefer': "getDeferValues gdv (ctxOperation ctx) (ctxVariableValues ctx) dirs' = Inr None"
    and frag: "fragments ctx F = Some fragment"
    and match: "doesFragmentConditionMatch (ctxSchema ctx) (typeCondition fragment) (runtimeType ctx)"
    and first: "collectFieldsImpl fuel gdv ctx (FragmentSpread F dirs # mid) parentTarget newTarget acc
                  = Some (Inr acc1)"
  shows "F \<in> set (visitedFragmentNames acc1)
     \<and> collectFieldsImpl fuel' gdv ctx (FragmentSpread F dirs' # rest) parentTarget' newTarget' acc1 =
         collectFieldsImpl fuel' gdv ctx rest parentTarget' newTarget' acc1
     \<and> collectFieldsImpl fuel' gdv ctx [FragmentSpread F dirs'] parentTarget' newTarget' acc1 =
         Some (Inr acc1)
     \<and> collectFieldsImpl fuel gdv ctx
           (FragmentSpread F dirs # mid @ [InlineFragment tc idirs (FragmentSpread F dirs' # body)])
           parentTarget newTarget acc =
         collectFieldsImpl fuel gdv ctx
           (FragmentSpread F dirs # mid @ [InlineFragment tc idirs body])
           parentTarget newTarget acc"
proof -
  have visited: "F \<in> set (visitedFragmentNames acc1)"
    using incl nodefer frag match first by (rule spread_marks_visited)
  have skip: "collectFieldsImpl fuel' gdv ctx (FragmentSpread F dirs' # rest) parentTarget' newTarget' acc1 =
         collectFieldsImpl fuel' gdv ctx rest parentTarget' newTarget' acc1"
    for rest
    using nodefer' visited by (rule spread_skipped_when_visited)
  have alone: "collectFieldsImpl fuel' gdv ctx [FragmentSpread F dirs'] parentTarget' newTarget' acc1 =
         Some (Inr acc1)"
    using skip [of "[]"] by simp
  have "collectFieldsImpl fuel gdv ctx
           ((FragmentSpread F dirs # mid) @ [InlineFragment tc idirs (FragmentSpread F dirs' # body)])
           parentTarget newTarget acc =
         collectFieldsImpl fuel gdv ctx
           ((FragmentSpread F dirs # mid) @ [InlineFragment tc idirs body])
           parentTarget newTarget acc"
    unfolding collectFieldsImpl_append [of fuel gdv ctx "FragmentSpread F dirs # mid"] first
    using inline_spread_skipped_when_visited [OF nodefer' visited] by simp
  then have nested: "collectFieldsImpl fuel gdv ctx
           (FragmentSpread F dirs # mid @ [InlineFragment tc idirs (FragmentSpread F dirs' # body)])
           parentTarget newTarget acc =
         collectFieldsImpl fuel gdv ctx
           (FragmentSpread F dirs # mid @ [InlineFragment tc idirs body])
           parentTarget newTarget acc"
    by simp
  from visited skip alone nested show ?thesis by blast
qed

theorem visited_fragments_shared_across_targets_witness:
  "collectFieldsImpl (Suc 0) literalDirectiveValues (sampleContext sampleFragments (queryOperation []))
       [FragmentSpread ''F'' []] Undefined_target Undefined_target emptyAccumulators =
     Some (Inr \<lparr>fieldsByTarget = [(Undefined_target, [(''x'', [plainField 20 ''x''])])],
                targetsByKey = [(''x'', [Undefined_target])],
                newDeferUsages = [],
                visitedFragmentNames = [''F''],
                nextTargetId = 0\<rparr>)
   \<and> collectFieldsImpl (Suc 0) literalDirectiveValues (sampleContext sampleFragments (queryOperation []))
       [FragmentSpread ''F'' [], InlineFragment None [deferDirective] [FragmentSpread ''F'' []]]
       Undefined_target Undefined_target emptyAccumulators =
     Some (Inr \<lparr>fieldsByTarget = [(Undefined_target, [(''x'', [plainField 20 ''x''])])],
                targetsByKey = [(''x'', [Undefined_target])],
                newDeferUsages = [DeferUsage 0 None [Undefined_target]],
                visitedFragmentNames = [''F''],
                nextTargetId = Suc 0\<rparr>)
   \<and> collectFieldsImpl (Suc 0) literalDirectiveValues (sampleContext sampleFragments (queryOperation []))
       [FragmentSpread ''F'' []] Undefined_target (DeferUsage 0 None [Undefined_target])
       \<lparr>fieldsByTarget = [(Undefined_target, [(''x'', [plainField 20 ''x''])])],
        targetsByKey = [(''x'', [Undefined_target])],
        newDeferUsages = [],
        visitedFragmentNames = [''F''],
        nextTargetId = 0\<rparr> =
     Some (Inr \<lparr>fieldsByTarget = [(Undefined_target, [(''x'', [plainField 20 ''x''])])],
                targetsByKey = [(''x'', [Undefined_target])],
                newDeferUsages = [],
                visitedFragmentNames = [''F''],
                nextTargetId = 0\<rparr>)"
proof -
  have first: "collectFieldsImpl (Suc 0) literalDirectiveValues
       (sampleContext sampleFragments (queryOperation []))
       (FragmentSpread ''F'' [] # []) Undefined_target Undefined_target emptyAccumulators =
     Some (Inr \<lparr>fieldsByTarget = [(Undefined_target, [(''x'', [plainField 20 ''x''])])],
                targetsByKey = [(''x'', [Undefined_target])],
                newDeferUsages = [],
                visitedFragmentNames = [''F''],
                nextTargetId = 0\<rparr>)"
    by (simp add: sample_defs collector_defs)
  have a1: "shouldIncludeNode literalDirectiveValues
       (ctxVariableValues (sampleContext sampleFragments (queryOperation []))) []"
    by (simp add: sample_defs collector_defs)
  have a2: "getDeferValues literalDirectiveValues
       (ctxOperation (sampleContext sampleFragments (queryOperation [])))
       (ctxVariableValues (sampleContext sampleFragments (queryOperation []))) [] = Inr None"
    by (simp add: sample_defs collector_defs)
  have a3: "fragments (sampleContext sampleFragments (queryOperation [])) ''F'' =
      Some \<lparr>typeCondition = Some ''Query'', selectionSet = [plainField 20 ''x'']\<rparr>"
    by (simp add: sample_defs)
  have a4: "doesFragmentConditionMatch (ctxSchema (sampleContext sampleFragments (queryOperation [])))
       (typeCondition \<lparr>typeCondition = Some ''Query'', selectionSet = [plainField 20 ''x'']\<rparr>)
       (runtimeType (sampleContext sampleFragments (queryOperation [])))"
    by (simp add: sample_defs collector_defs)
  from visited_fragments_shared_across_targets
    [OF a1 a2 a2 a3 a4 first, of "Suc 0" "[]" Undefined_target "DeferUsage 0 None [Undefined_target]"
       None "[deferDirective]" "[]"]
    first
  show ?thesis
    by (simp add: sample_defs collector_defs)
qed

end
